theory Spec2Isabelle
  imports Main "HOL-Library.Word" "HOL-Library.Log_Nat" "HOL-Library.Multiset"
begin

section \<open>The hello example: SumTask (examples/hello/src/sum.cc)\<close>

subsection \<open>The C++ type float\<close>

text \<open>
  The task accumulates in a C++ \<^verbatim>\<open>float\<close>: an IEEE-754 binary32 value, added with
  round-to-nearest, ties-to-even. A finite value is \<open>Finite s m e\<close>, standing for
  \<open>(-1)^s * m * 2^e\<close> with \<open>m < 2^24\<close> and \<open>-149 \<le> e \<le> 104\<close>, kept in the
  unique form where \<open>2^23 \<le> m\<close> (normal) or \<open>e = -149\<close> (subnormal and zero), so that
  equality of values of this type is equality of bit patterns (all NaNs are one value).
\<close>

datatype float32 = Finite bool nat int | Infinity bool | NaN

text \<open>
  \<open>round_float32 s m e\<close> is the binary32 value nearest to the exact \<open>(-1)^s * m * 2^e\<close>,
  for \<open>-149 \<le> e\<close>: at most 24 bits are exact, more are cut with ties to even, and an
  exponent beyond 104 overflows to infinity.
\<close>

definition round_float32 :: "bool \<Rightarrow> nat \<Rightarrow> int \<Rightarrow> float32" where
  "round_float32 s m e =
     (if m = 0 then Finite s 0 (- 149)
      else if bitlen (int m) \<le> 24 then
        (let j = min (24 - bitlen (int m)) (e + 149)
         in Finite s (m * 2 ^ nat j) (e - j))
      else
        (let k = nat (bitlen (int m) - 24);
             q = m div 2 ^ k;
             r = m mod 2 ^ k;
             q' = (if 2 ^ (k - 1) < r \<or> (r = 2 ^ (k - 1) \<and> odd q) then q + 1 else q);
             m' = (if q' = 2 ^ 24 then 2 ^ 23 else q');
             e' = (if q' = 2 ^ 24 then e + int k + 1 else e + int k)
         in if 104 < e' then Infinity s else Finite s m' e'))"

definition signed_value :: "bool \<Rightarrow> nat \<Rightarrow> int" where
  "signed_value s m = (if s then - int m else int m)"

text \<open>The operator \<^verbatim>\<open>+\<close> on float.\<close>

fun fadd :: "float32 \<Rightarrow> float32 \<Rightarrow> float32" where
  "fadd NaN y = NaN"
| "fadd x NaN = NaN"
| "fadd (Infinity s) (Infinity t) = (if s = t then Infinity s else NaN)"
| "fadd (Infinity s) (Finite t m e) = Infinity s"
| "fadd (Finite s m e) (Infinity t) = Infinity t"
| "fadd (Finite s1 m1 e1) (Finite s2 m2 e2) =
     (let e = min e1 e2;
          v = signed_value s1 (m1 * 2 ^ nat (e1 - e)) + signed_value s2 (m2 * 2 ^ nat (e2 - e))
      in if v = 0 then Finite (s1 \<and> s2) 0 (- 149)
         else round_float32 (v < 0) (nat \<bar>v\<bar>) e)"

text \<open>The conversion of an integer to float, as in \<^verbatim>\<open>float total = 0\<close>.\<close>

definition float_of_int :: "int \<Rightarrow> float32" where
  "float_of_int a = round_float32 (a < 0) (nat \<bar>a\<bar>) 0"

subsection \<open>Stores and the task context\<close>

text \<open>
  \<^verbatim>\<open>legate::Rect<1>\<close> is a pair of one-dimensional points whose coordinate is Legion's
  \<^verbatim>\<open>coord_t\<close>, a signed 64-bit integer (\<^verbatim>\<open>long long\<close>); a coordinate is kept as its
  64-bit pattern and read as a signed number with \<open>sint\<close>. The loop index of the task is
  a \<^verbatim>\<open>size_t\<close>, the unsigned reading of the same 64 bits.
\<close>

type_synonym coord_t = "64 word"
type_synonym size_t = "64 word"

record rect1 =
  lo :: coord_t
  hi :: coord_t

text \<open>
  Modelled from the spec: the type-code enumeration of the runtime, declared in a header
  that is not among the sources. The task names only \<^verbatim>\<open>FLOAT_LT\<close>, "floating point";
  the other codes are the element types a store can have instead.
\<close>

datatype type_code =
  BOOL_LT | INT8_LT | INT16_LT | INT32_LT | INT64_LT
  | UINT8_LT | UINT16_LT | UINT32_LT | UINT64_LT
  | HALF_LT | FLOAT_LT | DOUBLE_LT | COMPLEX64_LT | COMPLEX128_LT

text \<open>
  A store, as far as the task looks at it: its element type code, its dimension, the
  bounds \<^verbatim>\<open>shape<1>()\<close> reports, and the memory its accessor indexes by coordinate.
\<close>

record store =
  code :: type_code
  dim :: int
  shape :: rect1
  contents :: "coord_t \<Rightarrow> float32"

record task_context =
  inputs :: "store list"
  outputs :: "store list"
  reductions :: "store list"

text \<open>
  What an invocation does that can be seen from outside, in order: the line it logs, the
  elements it reads through the input accessor, and the reduction it applies.
\<close>

datatype event = Log coord_t coord_t | Read coord_t | Reduce coord_t float32

datatype error = OutOfRange | AssertionFailed

subsection \<open>The summation loop\<close>

text \<open>
  \<^verbatim>\<open>for (size_t i = input_shape.lo; i <= input_shape.hi; ++i) { total += in[i]; }\<close>

  The index is unsigned: \<open>i \<le> h\<close> on words is the unsigned comparison C++ makes after
  converting the bound to \<^verbatim>\<open>size_t\<close>, and \<open>i + 1\<close> wraps. The loop need not end, so
  its result is an option; the coordinates read are collected next to the total.
\<close>

partial_function (option) sum_loop ::
  "(coord_t \<Rightarrow> float32) \<Rightarrow> coord_t \<Rightarrow> size_t \<Rightarrow> float32 \<Rightarrow> coord_t list
     \<Rightarrow> (float32 \<times> coord_t list) option" where
  "sum_loop inp h i tot reads =
     (if i \<le> h then sum_loop inp h (i + 1) (fadd tot (inp i)) (reads @ [i])
      else Some (tot, reads))"

text \<open>
  The same loop cut off after at most \<open>n\<close> iterations: the index, the total and the
  reads made so far. It describes a run at every moment, also one that never ends.
\<close>

fun sum_loop_upto ::
  "nat \<Rightarrow> (coord_t \<Rightarrow> float32) \<Rightarrow> coord_t \<Rightarrow> size_t \<Rightarrow> float32 \<Rightarrow> coord_t list
     \<Rightarrow> size_t \<times> float32 \<times> coord_t list" where
  "sum_loop_upto 0 inp h i tot reads = (i, tot, reads)"
| "sum_loop_upto (Suc n) inp h i tot reads =
     (if i \<le> h then sum_loop_upto n inp h (i + 1) (fadd tot (inp i)) (reads @ [i])
      else (i, tot, reads))"

subsection \<open>The task body\<close>

text \<open>\<^verbatim>\<open>sum.reduce(0, total)\<close> with \<^verbatim>\<open>SumReduction<float>\<close>: element 0 becomes itself plus total.\<close>

definition reduce :: "store \<Rightarrow> coord_t \<Rightarrow> float32 \<Rightarrow> store" where
  "reduce st p v = st\<lparr>contents := (contents st)(p := fadd (contents st p) v)\<rparr>"

text \<open>
  \<^verbatim>\<open>SumTask::cpu_variant\<close>. \<open>None\<close>: the loop never ends. Otherwise the events of the
  invocation and either the error that stopped it or the context it leaves. Indexing
  \<^verbatim>\<open>inputs()\<close> or \<^verbatim>\<open>reductions()\<close> where there is no store 0 is \<open>OutOfRange\<close>; the three
  \<^verbatim>\<open>assert\<close>s are taken as compiled in (no \<^verbatim>\<open>NDEBUG\<close>), a failed one is \<open>AssertionFailed\<close>.
\<close>

definition cpu_variant :: "task_context \<Rightarrow> (event list \<times> (error + task_context)) option" where
  "cpu_variant context =
     (case inputs context of
        [] \<Rightarrow> Some ([], Inl OutOfRange)
      | input # more_inputs \<Rightarrow>
          (let input_shape = shape input;
               inp = contents input;
               logged = [Log (lo input_shape) (hi input_shape)]
           in case sum_loop inp (hi input_shape) (lo input_shape) (float_of_int 0) [] of
                None \<Rightarrow> None
              | Some (tot, reads) \<Rightarrow>
                  (case reductions context of
                     [] \<Rightarrow> Some (logged @ map Read reads, Inl OutOfRange)
                   | output # more_reductions \<Rightarrow>
                       if code output \<noteq> FLOAT_LT then
                         Some (logged @ map Read reads, Inl AssertionFailed)
                       else if dim output \<noteq> 1 then
                         Some (logged @ map Read reads, Inl AssertionFailed)
                       else if shape output \<noteq> \<lparr>lo = 0, hi = 0\<rparr> then
                         Some (logged @ map Read reads, Inl AssertionFailed)
                       else
                         Some (logged @ map Read reads @ [Reduce 0 tot],
                               Inr (context\<lparr>reductions :=
                                      reduce output 0 tot # more_reductions\<rparr>)))))"

subsection \<open>Invocations used as examples\<close>

text \<open>
  The accessor of an array held in a list (element \<open>k\<close> at coordinate \<open>k\<close>), a
  one-dimensional store of floats, the accumulator the runtime hands to a point task
  (one element, at the identity of the sum), and the context of a point task over one
  input store.
\<close>

definition array_of :: "float32 list \<Rightarrow> coord_t \<Rightarrow> float32" where
  "array_of xs p = (if unat p < length xs then xs ! unat p else NaN)"

definition float_store :: "rect1 \<Rightarrow> (coord_t \<Rightarrow> float32) \<Rightarrow> store" where
  "float_store r f = \<lparr>code = FLOAT_LT, dim = 1, shape = r, contents = f\<rparr>"

definition accumulator :: store where
  "accumulator = float_store \<lparr>lo = 0, hi = 0\<rparr> (\<lambda>p. float_of_int 0)"

definition point_task :: "store \<Rightarrow> task_context" where
  "point_task input = \<lparr>inputs = [input], outputs = [], reductions = [accumulator]\<rparr>"

definition example_array :: "coord_t \<Rightarrow> float32" where
  "example_array = array_of [float_of_int 1, float_of_int 2, float_of_int 3, float_of_int 4]"

subsection \<open>Point tasks over a partitioned array\<close>

text \<open>
  Modelled from the spec: the partitioning of the array and the combination of the
  accumulators of the point tasks are done by the runtime, which is not among the sources.
  The runtime cuts the coordinates \<open>a, ..., b\<close> of an array into consecutive segments
  that are not empty, one per point task: \<open>tiling a segs b\<close>. What a point task over
  the segment \<open>r\<close> contributes is what it leaves in element 0 of its accumulator, which
  the runtime gave it at the identity of the sum. The runtime then adds the contributions
  up, from the identity again.
\<close>

fun tiling :: "int \<Rightarrow> rect1 list \<Rightarrow> int \<Rightarrow> bool" where
  "tiling a [] b = (a = b + 1)"
| "tiling a (r # rs) b =
     (sint (lo r) = a \<and> a \<le> sint (hi r) \<and> sint (hi r) \<le> b \<and> tiling (sint (hi r) + 1) rs b)"

definition contribution :: "(coord_t \<Rightarrow> float32) \<Rightarrow> rect1 \<Rightarrow> float32 option" where
  "contribution f r =
     (case cpu_variant (point_task (float_store r f)) of
        Some (events, Inr context') \<Rightarrow>
          (case reductions context' of [] \<Rightarrow> None | acc # others \<Rightarrow> Some (contents acc 0))
      | Some (events, Inl e) \<Rightarrow> None
      | None \<Rightarrow> None)"

definition combine :: "float32 list \<Rightarrow> float32" where
  "combine cs = foldl fadd (float_of_int 0) cs"

definition rounding_array :: "coord_t \<Rightarrow> float32" where
  "rounding_array = array_of [float_of_int 16777216, float_of_int 1, float_of_int 1]"

subsection \<open>Additions that do not round\<close>

text \<open>
  A finite float in its unique form, and its value counted in units of \<open>2^-149\<close>, the
  smallest positive float, which makes the value of every finite float an integer. The
  addition of \<open>x\<close> and \<open>y\<close> does not round when the result is finite and its value is
  the sum of the two values; \<open>exact_sum t xs\<close> says so of every addition the loop
  \<^verbatim>\<open>total += x\<close> makes over \<open>xs\<close> from the total \<open>t\<close>. The point task over the
  segment \<open>r\<close> adds the elements \<open>segment f r\<close> and then reduces the total into its
  accumulator: \<open>task_exact f r\<close> says that none of these additions rounds.
\<close>

fun finite_float :: "float32 \<Rightarrow> bool" where
  "finite_float (Finite s m e) =
     (m < 2 ^ 24 \<and> - 149 \<le> e \<and> e \<le> 104 \<and> (2 ^ 23 \<le> m \<or> e = - 149))"
| "finite_float (Infinity s) = False"
| "finite_float NaN = False"

fun negative_zero :: "float32 \<Rightarrow> bool" where
  "negative_zero (Finite s m e) = (s \<and> m = 0)"
| "negative_zero (Infinity s) = False"
| "negative_zero NaN = False"

fun units :: "float32 \<Rightarrow> int" where
  "units (Finite s m e) = signed_value s m * 2 ^ nat (e + 149)"
| "units (Infinity s) = 0"
| "units NaN = 0"

definition exact_add :: "float32 \<Rightarrow> float32 \<Rightarrow> bool" where
  "exact_add x y =
     (finite_float x \<and> finite_float y \<and> finite_float (fadd x y)
      \<and> units (fadd x y) = units x + units y)"

fun exact_sum :: "float32 \<Rightarrow> float32 list \<Rightarrow> bool" where
  "exact_sum t [] = True"
| "exact_sum t (x # xs) = (exact_add t x \<and> exact_sum (fadd t x) xs)"

definition segment :: "(coord_t \<Rightarrow> float32) \<Rightarrow> rect1 \<Rightarrow> float32 list" where
  "segment f r = map (\<lambda>k. f (word_of_int k)) [sint (lo r)..sint (hi r)]"

definition task_exact :: "(coord_t \<Rightarrow> float32) \<Rightarrow> rect1 \<Rightarrow> bool" where
  "task_exact f r =
     (exact_sum (float_of_int 0) (segment f r)
      \<and> exact_add (float_of_int 0) (foldl fadd (float_of_int 0) (segment f r)))"

definition half :: float32 where
  "half = Finite False 8388608 (- 24)"

definition halves_array :: "coord_t \<Rightarrow> float32" where
  "halves_array = array_of [half, half, half, half]"

section \<open>Properties of the addition\<close>

text \<open>A number of at most 24 bits, shifted left, rounds to itself.\<close>

lemma round_exact:
  assumes "0 < m" and "bitlen (int m) \<le> 24"
  shows "round_float32 s (m * 2 ^ d) (- int d)
           = Finite s (m * 2 ^ nat (24 - bitlen (int m))) (bitlen (int m) - 24)"
proof -
  define n where "n = nat (bitlen (int m))"
  have n: "bitlen (int m) = int n" by (simp add: n_def bitlen_nonneg)
  have n24: "n \<le> 24" using assms(2) n by simp
  have mlt: "m < 2 ^ n"
    using bitlen_bounds [of "int m"] assms(1) n by (simp add: nat_less_iff flip: of_nat_power)
  have bl: "bitlen (int m * 2 ^ d) = int n + int d"
    using assms(1) n by simp
  have pos: "m * 2 ^ d \<noteq> 0" using assms(1) by simp
  show ?thesis
  proof (cases "n + d \<le> 24")
    case True
    then have j: "min (24 - (int n + int d)) (149 - int d) = 24 - int n - int d" by simp
    have "d + nat (24 - int n - int d) = nat (24 - int n)" using True by simp
    then have p: "(2::nat) ^ d * 2 ^ nat (24 - int n - int d) = 2 ^ nat (24 - int n)"
      by (simp flip: power_add)
    show ?thesis
      using True pos by (simp add: round_float32_def bl j n p Let_def)
  next
    case False
    define k where "k = n + d - 24"
    have k: "nat (int n + int d - 24) = k" by (simp add: k_def)
    have d: "d = k + (24 - n)" using False n24 by (simp add: k_def)
    have q: "m * 2 ^ d div 2 ^ k = m * 2 ^ (24 - n)"
      by (simp add: d power_add)
    have r: "m * 2 ^ d mod 2 ^ k = 0"
      by (simp add: d power_add)
    have lt: "m * 2 ^ (24 - n) < 2 ^ 24"
    proof -
      have "m * 2 ^ (24 - n) < 2 ^ n * 2 ^ (24 - n)" using mlt by simp
      also have "\<dots> = 2 ^ 24" using n24 by (simp flip: power_add)
      finally show ?thesis .
    qed
    have e: "int k - int d = int n - 24" using False n24 by (simp add: k_def)
    have nn: "nat (24 - int n) = 24 - n" by simp
    show ?thesis
      using False pos lt n24
      by (simp add: round_float32_def bl k q r n e nn Let_def)
  qed
qed

lemma bitlen_small:
  assumes "\<bar>a\<bar> < (2 ^ 24 :: int)"
  shows "bitlen \<bar>a\<bar> \<le> 24"
  using assms by (simp add: bitlen_le_iff_power)

lemma float_of_int_zero: "float_of_int 0 = Finite False 0 (- 149)"
  by (simp add: float_of_int_def round_float32_def)

lemma float_of_int_small:
  assumes "\<bar>a\<bar> < (2 ^ 24 :: int)" and "a \<noteq> 0"
  shows "float_of_int a
           = Finite (a < 0) (nat \<bar>a\<bar> * 2 ^ nat (24 - bitlen \<bar>a\<bar>)) (bitlen \<bar>a\<bar> - 24)"
proof -
  have "0 < nat \<bar>a\<bar>" using assms(2) by simp
  moreover have "bitlen (int (nat \<bar>a\<bar>)) \<le> 24" using bitlen_small [OF assms(1)] by simp
  ultimately show ?thesis
    using round_exact [of "nat \<bar>a\<bar>" "a < 0" 0] by (simp add: float_of_int_def)
qed

text \<open>
  An integer below \<open>2^24\<close> in size is a float without rounding, and stays the same
  number when its mantissa is moved to any smaller exponent.
\<close>

lemma float_of_int_repr:
  assumes "\<bar>a\<bar> < (2 ^ 24 :: int)"
  shows "\<exists>m e. float_of_int a = Finite (a < 0) m e \<and> e \<le> 0
           \<and> (\<forall>e'\<le>e. signed_value (a < 0) (m * 2 ^ nat (e - e')) = a * 2 ^ nat (- e'))"
proof (cases "a = 0")
  case True
  then show ?thesis by (simp add: float_of_int_zero signed_value_def)
next
  case False
  define n where "n = bitlen \<bar>a\<bar>"
  have n24: "n \<le> 24" unfolding n_def using assms by (rule bitlen_small)
  have n0: "0 \<le> n" unfolding n_def by (rule bitlen_nonneg)
  have move: "signed_value (a < 0) (nat \<bar>a\<bar> * 2 ^ nat (24 - n) * 2 ^ nat (n - 24 - e'))
                = a * 2 ^ nat (- e')" if "e' \<le> n - 24" for e'
  proof -
    have "nat (24 - n) + nat (n - 24 - e') = nat (- e')" using that n24 by simp
    then have "(2::nat) ^ nat (24 - n) * 2 ^ nat (n - 24 - e') = 2 ^ nat (- e')"
      by (simp flip: power_add)
    then have "nat \<bar>a\<bar> * 2 ^ nat (24 - n) * 2 ^ nat (n - 24 - e') = nat \<bar>a\<bar> * 2 ^ nat (- e')"
      by (simp only: mult.assoc)
    then show ?thesis by (simp only: signed_value_def) (simp split: if_splits)
  qed
  show ?thesis
    using float_of_int_small [OF assms False] n24 move unfolding n_def [symmetric]
    by (intro exI [of _ "nat \<bar>a\<bar> * 2 ^ nat (24 - n)"] exI [of _ "n - 24"]) simp
qed

text \<open>Small integers add without rounding.\<close>

lemma fadd_exact:
  assumes "\<bar>x\<bar> < (2 ^ 24 :: int)" and "\<bar>y\<bar> < 2 ^ 24" and "\<bar>x + y\<bar> < 2 ^ 24"
  shows "fadd (float_of_int x) (float_of_int y) = float_of_int (x + y)"
proof -
  obtain mx ex where x: "float_of_int x = Finite (x < 0) mx ex" "ex \<le> 0"
    "\<And>e'. e' \<le> ex \<Longrightarrow> signed_value (x < 0) (mx * 2 ^ nat (ex - e')) = x * 2 ^ nat (- e')"
    using float_of_int_repr [OF assms(1)] by blast
  obtain my ey where y: "float_of_int y = Finite (y < 0) my ey" "ey \<le> 0"
    "\<And>e'. e' \<le> ey \<Longrightarrow> signed_value (y < 0) (my * 2 ^ nat (ey - e')) = y * 2 ^ nat (- e')"
    using float_of_int_repr [OF assms(2)] by blast
  define d where "d = nat (- min ex ey)"
  have e: "min ex ey = - int d" using x(2) y(2) by (simp add: d_def min_def)
  have v: "signed_value (x < 0) (mx * 2 ^ nat (ex - min ex ey))
             + signed_value (y < 0) (my * 2 ^ nat (ey - min ex ey)) = (x + y) * 2 ^ d"
    using x(3) [of "min ex ey"] y(3) [of "min ex ey"] by (simp add: d_def algebra_simps)
  show ?thesis
  proof (cases "x + y = 0")
    case True
    then have "\<not> (x < 0 \<and> y < 0)" by auto
    then show ?thesis using True v by (simp add: x(1) y(1) float_of_int_zero)
  next
    case False
    have m: "nat \<bar>(x + y) * 2 ^ d\<bar> = nat \<bar>x + y\<bar> * 2 ^ d"
      by (simp add: abs_mult nat_mult_distrib nat_power_eq)
    have s: "((x + y) * 2 ^ d < 0) = (x + y < 0)"
      by (simp add: mult_less_0_iff)
    have "0 < nat \<bar>x + y\<bar>" using False by simp
    moreover have "bitlen (int (nat \<bar>x + y\<bar>)) \<le> 24" using bitlen_small [OF assms(3)] by simp
    ultimately have "round_float32 (x + y < 0) (nat \<bar>x + y\<bar> * 2 ^ d) (- int d)
        = float_of_int (x + y)"
      using round_exact [of "nat \<bar>x + y\<bar>" "x + y < 0" d] float_of_int_small [OF assms(3) False]
      by simp
    then show ?thesis using False v by (simp add: x(1) y(1) m s e)
  qed
qed

lemma foldl_fadd_exact:
  assumes "\<bar>t\<bar> + (\<Sum>v\<leftarrow>vs. \<bar>v\<bar>) < (2 ^ 24 :: int)"
  shows "foldl fadd (float_of_int t) (map float_of_int vs) = float_of_int (t + sum_list vs)"
  using assms
proof (induction vs arbitrary: t)
  case Nil
  then show ?case by simp
next
  case (Cons v vs)
  have "(\<Sum>v\<leftarrow>vs. \<bar>v\<bar>) \<ge> 0" by (rule sum_list_nonneg) auto
  then have "\<bar>t\<bar> < 2 ^ 24" "\<bar>v\<bar> < 2 ^ 24" "\<bar>t + v\<bar> < 2 ^ 24" using Cons.prems by simp_all
  then have "fadd (float_of_int t) (float_of_int v) = float_of_int (t + v)" by (rule fadd_exact)
  moreover have "\<bar>t + v\<bar> + (\<Sum>v\<leftarrow>vs. \<bar>v\<bar>) < 2 ^ 24" using Cons.prems by simp
  ultimately show ?case using Cons.IH [of "t + v"] by (simp add: add.assoc)
qed

text \<open>A finite float other than the negative zero is determined by its value.\<close>

lemma units_zero:
  assumes "finite_float x" and "units x = 0"
  shows "\<exists>s. x = Finite s 0 (- 149)"
proof (cases x)
  case (Finite s m e)
  with assms(2) have "m = 0" by (simp add: signed_value_def split: if_splits)
  with assms(1) Finite show ?thesis by simp
qed (use assms in simp_all)

lemma normal_bitlen:
  assumes "2 ^ 23 \<le> m" and "m < (2 ^ 24 :: nat)"
  shows "bitlen (int m) = 24"
proof -
  have "bitlen (int m) \<le> 24" using assms(2) less_power_nat_iff_bitlen [of m 24] by simp
  moreover have "24 \<le> bitlen (int m)"
    using assms(1) by (simp add: bitlen_ge_iff_power flip: of_nat_power)
  ultimately show ?thesis by simp
qed

lemma mantissa_exponent_unique:
  fixes m1 m2 :: nat and e1 e2 :: int
  assumes "m1 < 2 ^ 24" "- 149 \<le> e1" "2 ^ 23 \<le> m1 \<or> e1 = - 149"
    and "m2 < 2 ^ 24" "- 149 \<le> e2" "2 ^ 23 \<le> m2 \<or> e2 = - 149"
    and "0 < m1"
    and eq: "m1 * 2 ^ nat (e1 + 149) = m2 * 2 ^ nat (e2 + 149)"
  shows "m1 = m2 \<and> e1 = e2"
proof -
  have pos2: "0 < m2" using eq assms(7) by (cases "m2 = 0") auto
  have b1: "bitlen (int m1 * 2 ^ nat (e1 + 149)) = bitlen (int m1) + int (nat (e1 + 149))"
    using assms(7) by simp
  have b2: "bitlen (int m2 * 2 ^ nat (e2 + 149)) = bitlen (int m2) + int (nat (e2 + 149))"
    using pos2 by simp
  have "int (m1 * 2 ^ nat (e1 + 149)) = int (m2 * 2 ^ nat (e2 + 149))"
    using eq by (rule arg_cong)
  then have "int m1 * 2 ^ nat (e1 + 149) = int m2 * 2 ^ nat (e2 + 149)"
    by simp
  then have "bitlen (int m1 * 2 ^ nat (e1 + 149)) = bitlen (int m2 * 2 ^ nat (e2 + 149))"
    by (rule arg_cong)
  then have sum: "bitlen (int m1) + (e1 + 149) = bitlen (int m2) + (e2 + 149)"
    unfolding b1 b2 using assms(2,5) by simp
  have n1: "bitlen (int m1) \<le> 24" "e1 \<noteq> - 149 \<Longrightarrow> bitlen (int m1) = 24"
    using assms(1,3) less_power_nat_iff_bitlen [of m1 24] normal_bitlen [of m1] by auto
  have n2: "bitlen (int m2) \<le> 24" "e2 \<noteq> - 149 \<Longrightarrow> bitlen (int m2) = 24"
    using assms(4,6) less_power_nat_iff_bitlen [of m2 24] normal_bitlen [of m2] by auto
  have e: "e1 = e2"
  proof (cases "e1 = - 149")
    case True
    show ?thesis
    proof (cases "e2 = - 149")
      case False
      then show ?thesis using True sum n1 n2 assms(5) by simp
    qed (use True in simp)
  next
    case False
    show ?thesis
    proof (cases "e2 = - 149")
      case True
      then show ?thesis using False sum n1 n2 assms(2) by simp
    next
      case False2: False
      then show ?thesis using False sum n1 n2 by simp
    qed
  qed
  have "m1 * 2 ^ nat (e2 + 149) = m2 * 2 ^ nat (e2 + 149)" using eq unfolding e .
  then have "m1 = m2" by simp
  then show ?thesis using e by simp
qed

lemma units_unique:
  assumes "finite_float x" and "finite_float y" and "units x = units y" and "units x \<noteq> 0"
  shows "x = y"
proof (cases x)
  case x: (Finite s1 m1 e1)
  show ?thesis
  proof (cases y)
    case y: (Finite s2 m2 e2)
    have m1: "0 < m1" using assms(4) x by (cases "m1 = 0") (simp_all add: signed_value_def split: if_splits)
    have m2: "0 < m2" using assms(3,4) y by (cases "m2 = 0") (simp_all add: signed_value_def split: if_splits)
    have p1: "0 < int m1 * 2 ^ nat (e1 + 149)" using m1 by simp
    have p2: "0 < int m2 * 2 ^ nat (e2 + 149)" using m2 by simp
    have s: "s1 = s2"
      using assms(3) p1 p2 unfolding x y by (cases s1; cases s2) (simp_all add: signed_value_def)
    have "int m1 * 2 ^ nat (e1 + 149) = int m2 * 2 ^ nat (e2 + 149)"
      using assms(3) unfolding x y s by (cases s2) (simp_all add: signed_value_def)
    then have "int (m1 * 2 ^ nat (e1 + 149)) = int (m2 * 2 ^ nat (e2 + 149))"
      by simp
    then have "m1 * 2 ^ nat (e1 + 149) = m2 * 2 ^ nat (e2 + 149)"
      by (simp only: of_nat_eq_iff)
    then have "m1 = m2 \<and> e1 = e2"
      using assms(1,2) m1 unfolding x y by (intro mantissa_exponent_unique) simp_all
    then show ?thesis using x y s by simp
  qed (use assms in simp_all)
qed (use assms in simp_all)

lemma signed_value_mult: "signed_value s (m * k) = signed_value s m * int k"
  by (simp add: signed_value_def)

lemma negative_zero_units: "negative_zero x \<Longrightarrow> units x = 0"
  by (cases x) (simp_all add: signed_value_def)

text \<open>The exact sum of two finite floats, in units of the smaller exponent.\<close>

lemma aligned_sum_units:
  assumes "- 149 \<le> e1" and "- 149 \<le> e2"
  shows "(signed_value s1 (m1 * 2 ^ nat (e1 - min e1 e2))
            + signed_value s2 (m2 * 2 ^ nat (e2 - min e1 e2))) * 2 ^ nat (min e1 e2 + 149)
           = units (Finite s1 m1 e1) + units (Finite s2 m2 e2)"
proof -
  have a: "nat (e1 - min e1 e2) + nat (min e1 e2 + 149) = nat (e1 + 149)"
    using assms by simp
  have b: "nat (e2 - min e1 e2) + nat (min e1 e2 + 149) = nat (e2 + 149)"
    using assms by simp
  have "(2::int) ^ nat (e1 - min e1 e2) * 2 ^ nat (min e1 e2 + 149) = 2 ^ nat (e1 + 149)"
    "(2::int) ^ nat (e2 - min e1 e2) * 2 ^ nat (min e1 e2 + 149) = 2 ^ nat (e2 + 149)"
    unfolding a [symmetric] b [symmetric] by (simp_all add: power_add)
  then show ?thesis
    by (simp add: signed_value_mult distrib_right mult.assoc)
qed

lemma exact_add_keeps_sign_of_zero:
  assumes "exact_add t x" and "\<not> negative_zero t"
  shows "\<not> negative_zero (fadd t x)"
proof (cases t)
  case t: (Finite s1 m1 e1)
  show ?thesis
  proof (cases x)
    case x: (Finite s2 m2 e2)
    let ?v = "signed_value s1 (m1 * 2 ^ nat (e1 - min e1 e2))
                + signed_value s2 (m2 * 2 ^ nat (e2 - min e1 e2))"
    have fin: "- 149 \<le> e1" "- 149 \<le> e2" using assms(1) by (simp_all add: exact_add_def t x)
    have u: "?v * 2 ^ nat (min e1 e2 + 149) = units t + units x"
      unfolding t x using fin by (rule aligned_sum_units)
    show ?thesis
    proof (cases "?v = 0")
      case True
      have "\<not> (s1 \<and> s2)"
      proof
        assume s: "s1 \<and> s2"
        have "0 \<le> int (m1 * 2 ^ nat (e1 - min e1 e2))" "0 \<le> int (m2 * 2 ^ nat (e2 - min e1 e2))"
          by simp_all
        moreover have "- int (m1 * 2 ^ nat (e1 - min e1 e2)) - int (m2 * 2 ^ nat (e2 - min e1 e2)) = 0"
          using True s by (simp add: signed_value_def)
        ultimately have "int (m1 * 2 ^ nat (e1 - min e1 e2)) = 0" by linarith
        then have "m1 = 0" by simp
        then show False using assms(2) s by (simp add: t)
      qed
      then show ?thesis using True by (simp add: t x Let_def)
    next
      case False
      then have "units t + units x \<noteq> 0" using u by (metis mult_eq_0_iff power_not_zero zero_neq_numeral)
      then have "units (fadd t x) \<noteq> 0" using assms(1) by (simp add: exact_add_def)
      then show ?thesis using negative_zero_units by blast
    qed
  qed (use assms in \<open>simp_all add: exact_add_def\<close>)
qed (use assms in \<open>simp_all add: exact_add_def\<close>)

lemma exact_sum_fold:
  assumes "finite_float t" and "\<not> negative_zero t" and "exact_sum t xs"
  shows "finite_float (foldl fadd t xs) \<and> \<not> negative_zero (foldl fadd t xs)
           \<and> units (foldl fadd t xs) = units t + sum_list (map units xs)"
  using assms
proof (induction xs arbitrary: t)
  case Nil
  then show ?case by simp
next
  case (Cons x xs)
  then have e: "exact_add t x" and rest: "exact_sum (fadd t x) xs" by simp_all
  have "finite_float (fadd t x)" "units (fadd t x) = units t + units x"
    using e by (simp_all add: exact_add_def)
  moreover have "\<not> negative_zero (fadd t x)"
    using e Cons.prems(2) by (rule exact_add_keeps_sign_of_zero)
  ultimately show ?case using Cons.IH [of "fadd t x"] rest by simp
qed

lemma units_determine:
  assumes "finite_float x" and "\<not> negative_zero x"
    and "finite_float y" and "\<not> negative_zero y"
    and "units x = units y"
  shows "x = y"
proof (cases "units x = 0")
  case True
  obtain s where x: "x = Finite s 0 (- 149)" using units_zero [OF assms(1) True] by blast
  obtain s' where y: "y = Finite s' 0 (- 149)" using units_zero [OF assms(3)] True assms(5) by auto
  show ?thesis using assms(2,4) unfolding x y by simp
next
  case False
  with assms show ?thesis by (intro units_unique) simp_all
qed

text \<open>
  The sum of two finite floats is again a finite float in its unique form, unless it
  overflows to an infinity: of the result, \<open>exact_add\<close> asks no more than that it
  does not overflow and has the exact value.
\<close>

lemma round_float32_well_formed:
  assumes "0 < m" and "- 149 \<le> e" and "e \<le> 104"
  shows "finite_float (round_float32 s m e) \<or> round_float32 s m e = Infinity s"
proof -
  define n where "n = nat (bitlen (int m))"
  have n: "bitlen (int m) = int n" by (simp add: n_def bitlen_nonneg)
  have nn: "nat (int n - 1) = n - 1" by arith
  have "(2::int) ^ (n - 1) \<le> int m" "int m < 2 ^ n"
    using bitlen_bounds [of "int m"] assms(1) unfolding n nn by simp_all
  then have "int (2 ^ (n - 1)) \<le> int m" "int m < int (2 ^ n)" by simp_all
  then have bounds: "2 ^ (n - 1) \<le> m" "m < 2 ^ n"
    by (simp_all only: of_nat_le_iff of_nat_less_iff)
  show ?thesis
  proof (cases "n \<le> 24")
    case True
    define j where "j = nat (min (24 - int n) (e + 149))"
    have j: "min (24 - int n) (e + 149) = int j" using True assms(2) by (simp add: j_def)
    have jn: "n + j \<le> 24" using True assms(2) by (simp add: j_def)
    have "bitlen (int (m * 2 ^ j)) = int n + int j" using assms(1) n by simp
    then have small: "m * 2 ^ j < 2 ^ 24"
      using jn less_power_nat_iff_bitlen [of "m * 2 ^ j" 24] by simp
    have norm: "2 ^ 23 \<le> m * 2 ^ j \<or> e - int j = - 149"
    proof (cases "24 - int n \<le> e + 149")
      case True
      then have "n - 1 + j = 23" using \<open>n \<le> 24\<close> assms(1) bounds n by (cases n) (simp_all add: j_def)
      then have "(2::nat) ^ 23 = 2 ^ (n - 1) * 2 ^ j" by (simp flip: power_add)
      also have "\<dots> \<le> m * 2 ^ j" using bounds(1) by simp
      finally show ?thesis by simp
    next
      case False
      then show ?thesis using assms(2) by (simp add: j_def)
    qed
    have low: "- 149 \<le> e - int j" "e - int j \<le> 104"
      using True assms(2,3) by (simp_all add: j_def)
    show ?thesis
      using True assms(1) small norm low
      by (simp add: round_float32_def n j Let_def)
  next
    case False
    define k where "k = n - 24"
    have k: "nat (int n - 24) = k" by (simp add: k_def)
    have nk: "n = k + 24" using False by (simp add: k_def)
    define q where "q = m div 2 ^ k"
    have qlo: "2 ^ 23 \<le> q"
    proof -
      have "(2::nat) ^ (n - 1) = 2 ^ 23 * 2 ^ k" by (simp add: nk power_add)
      then have "(2::nat) ^ 23 * 2 ^ k \<le> m" using bounds(1) by simp
      then show ?thesis unfolding q_def by (simp add: less_eq_div_iff_mult_less_eq)
    qed
    have qhi: "q < 2 ^ 24"
    proof -
      have "(2::nat) ^ n = 2 ^ 24 * 2 ^ k" by (simp add: nk power_add)
      then have "m < 2 ^ 24 * 2 ^ k" using bounds(2) by simp
      then show ?thesis unfolding q_def by (simp add: less_mult_imp_div_less)
    qed
    show ?thesis
      using False assms qlo qhi
      by (auto simp add: round_float32_def n k q_def [symmetric] Let_def)
  qed
qed

lemma fadd_well_formed:
  assumes "finite_float x" and "finite_float y"
  shows "finite_float (fadd x y) \<or> (\<exists>s. fadd x y = Infinity s)"
proof (cases x)
  case x: (Finite s1 m1 e1)
  show ?thesis
  proof (cases y)
    case y: (Finite s2 m2 e2)
    let ?v = "signed_value s1 (m1 * 2 ^ nat (e1 - min e1 e2))
                + signed_value s2 (m2 * 2 ^ nat (e2 - min e1 e2))"
    have e: "- 149 \<le> min e1 e2" "min e1 e2 \<le> 104" using assms by (auto simp add: x y min_def)
    show ?thesis
    proof (cases "?v = 0")
      case True
      then show ?thesis by (simp add: x y Let_def)
    next
      case False
      then have "0 < nat \<bar>?v\<bar>" by simp
      from round_float32_well_formed [OF this e, of "?v < 0"] show ?thesis
        using False by (auto simp add: x y Let_def)
    qed
  qed (use assms in simp_all)
qed (use assms in simp_all)

section \<open>Properties of the loop\<close>

lemmas float_eval = float_of_int_def round_float32_def compute_bitlen signed_value_def Let_def

lemma sum_loop_exit: "\<not> i \<le> h \<Longrightarrow> sum_loop inp h i tot reads = Some (tot, reads)"
  by (subst sum_loop.simps) simp

lemma sum_loop_step:
  "i \<le> h \<Longrightarrow>
     sum_loop inp h i tot reads = sum_loop inp h (i + 1) (fadd tot (inp i)) (reads @ [i])"
  by (subst sum_loop.simps) simp

text \<open>A coordinate that is not negative is the same number read unsigned.\<close>

lemma nonneg_sint_uint:
  fixes w :: "64 word"
  assumes "0 \<le> sint w"
  shows "sint w = uint w"
proof -
  have "sint w < 2 ^ 64" using sint_lt [of w] by simp
  with assms have "take_bit 64 (sint w) = sint w"
    by (simp add: take_bit_int_eq_self)
  then show ?thesis using uint_sint [of w] by simp
qed

lemma nonneg_le:
  fixes i h :: "64 word"
  shows "0 \<le> sint i \<Longrightarrow> sint i \<le> sint h \<Longrightarrow> i \<le> h"
  using nonneg_sint_uint [of i] nonneg_sint_uint [of h] by (simp add: word_le_def)

lemma nonneg_succ_gt:
  fixes h :: "64 word"
  assumes "0 \<le> sint h"
  shows "\<not> h + 1 \<le> h"
proof -
  from assms have "h \<noteq> - 1" by auto
  then show ?thesis by (simp add: inc_less_eq_self_iff_eq)
qed

lemma sint_succ:
  fixes i h :: "64 word"
  assumes "sint i < sint h"
  shows "sint (i + 1) = sint i + 1"
proof -
  have "sint h < 2 ^ 63" using sint_lt [of h] by simp
  moreover have "- (2 ^ 63) \<le> sint i" using sint_ge [of i] by simp
  ultimately show ?thesis using assms
    by (simp add: sint_word_ariths signed_take_bit_int_eq_self)
qed

lemma sint_eq_imp_eq:
  fixes i h :: "64 word"
  assumes "sint i = sint h"
  shows "i = h"
proof -
  from assms have "(word_of_int (sint i) :: 64 word) = word_of_int (sint h)" by simp
  then show ?thesis by simp
qed

text \<open>
  Between bounds that are not negative the loop ends, having added the elements at
  \<open>i, i + 1, ..., h\<close> to the total from the left and read exactly those coordinates.
\<close>

lemma sum_loop_nonneg:
  fixes i h :: "64 word"
  assumes "nat (sint h - sint i) = n" and "0 \<le> sint i" and "sint i \<le> sint h"
  shows "sum_loop inp h i tot reads =
           Some (foldl fadd tot (map (\<lambda>k. inp (word_of_int k)) [sint i..sint h]),
                 reads @ map word_of_int [sint i..sint h])"
  using assms
proof (induction n arbitrary: i tot reads)
  case 0
  then have eq: "sint i = sint h" by simp
  then have ih: "i = h" by (rule sint_eq_imp_eq)
  have h0: "0 \<le> sint h" using 0 eq by simp
  show ?case
    unfolding ih
    by (simp add: sum_loop_step sum_loop_exit nonneg_succ_gt [OF h0])
next
  case (Suc n)
  then have lt: "sint i < sint h" by simp
  have le: "i \<le> h" using Suc.prems nonneg_le by blast
  have s: "sint (i + 1) = sint i + 1" using lt by (rule sint_succ)
  have "sum_loop inp h i tot reads = sum_loop inp h (i + 1) (fadd tot (inp i)) (reads @ [i])"
    using le by (rule sum_loop_step)
  also have "\<dots> =
      Some (foldl fadd (fadd tot (inp i)) (map (\<lambda>k. inp (word_of_int k)) [sint (i + 1)..sint h]),
            (reads @ [i]) @ map word_of_int [sint (i + 1)..sint h])"
    using Suc.prems lt s by (intro Suc.IH) simp_all
  also have "\<dots> =
      Some (foldl fadd tot (map (\<lambda>k. inp (word_of_int k)) [sint i..sint h]),
            reads @ map word_of_int [sint i..sint h])"
    using lt by (simp add: s upto_rec1 [of "sint i" "sint h"])
  finally show ?case .
qed

text \<open>
  An empty range whose upper bound is not negative is handled as an empty range: nothing
  is read and the total stays at its start.
\<close>

lemma sum_loop_empty_nonneg:
  fixes l h :: "64 word"
  assumes "0 \<le> sint h" and "sint h < sint l"
  shows "sum_loop inp h l tot reads = Some (tot, reads)"
proof -
  have "uint h < uint l"
    using assms nonneg_sint_uint [of h] nonneg_sint_uint [of l] by simp
  then have "\<not> l \<le> h" by (simp add: word_le_def)
  then show ?thesis by (rule sum_loop_exit)
qed

text \<open>
  Every index is at most the largest \<^verbatim>\<open>size_t\<close>, which is what the bound \<open>-1\<close> turns
  into: with that bound the condition of the loop never fails.
\<close>

lemma sum_loop_returns_bound:
  assumes "sum_loop inp h i tot reads = Some y"
  shows "h \<noteq> - 1"
proof (rule sum_loop.raw_induct [where P = "\<lambda>inp h i tot reads y. h \<noteq> - 1", OF _ assms])
  fix f :: "(coord_t \<Rightarrow> float32) \<Rightarrow> coord_t \<Rightarrow> size_t \<Rightarrow> float32 \<Rightarrow> coord_t list
              \<Rightarrow> (float32 \<times> coord_t list) option"
    and inp and h i :: "64 word" and tot reads y
  assume "\<And>inp h i tot reads y. f inp h i tot reads = Some y \<Longrightarrow> h \<noteq> - 1"
    and "(if i \<le> h then f inp h (i + 1) (fadd tot (inp i)) (reads @ [i])
          else Some (tot, reads)) = Some y"
  then show "h \<noteq> - 1" by (cases "i \<le> h") auto
qed

lemma sum_loop_never_ends: "sum_loop inp (- 1) i tot reads = None"
  using sum_loop_returns_bound [of inp "- 1" i tot reads]
  by (cases "sum_loop inp (- 1) i tot reads") auto

text \<open>With any other bound the loop ends.\<close>

lemma sum_loop_ends_aux:
  fixes i h :: "64 word"
  assumes "unat h - unat i = n" and "i \<le> h" and "h \<noteq> - 1"
  shows "\<exists>t r. sum_loop inp h i tot reads = Some (t, r)"
  using assms
proof (induction n arbitrary: i tot reads)
  case 0
  then have "unat i = unat h" by (simp add: word_le_nat_alt)
  then have ih: "i = h" by (rule word_unat_eq_iff [THEN iffD2])
  have "\<not> h + 1 \<le> h" using 0 by (simp add: inc_less_eq_self_iff_eq)
  then show ?case unfolding ih by (simp add: sum_loop_step sum_loop_exit)
next
  case (Suc n)
  then have lt: "i < h" by (simp add: word_less_nat_alt)
  then have le: "i + 1 \<le> h" by (rule inc_le)
  have "unat (i + 1) = Suc (unat i)" using lt by unat_arith
  then have "unat h - unat (i + 1) = n" using Suc.prems by simp
  then have "\<exists>t r. sum_loop inp h (i + 1) (fadd tot (inp i)) (reads @ [i]) = Some (t, r)"
    using le Suc.prems by (intro Suc.IH) simp_all
  then show ?case using Suc.prems by (simp add: sum_loop_step)
qed

lemma sum_loop_ends:
  assumes "h \<noteq> - 1"
  shows "\<exists>t r. sum_loop inp h i tot reads = Some (t, r)"
proof (cases "i \<le> h")
  case True
  then show ?thesis using assms sum_loop_ends_aux [OF refl] by blast
next
  case False
  then show ?thesis by (simp add: sum_loop_exit)
qed

text \<open>The loop cut off and the loop run to its end agree.\<close>

lemma sum_loop_upto_exit:
  "\<not> i \<le> h \<Longrightarrow> sum_loop_upto n inp h i tot reads = (i, tot, reads)"
  by (cases n) simp_all

lemma sum_loop_upto_final:
  "sum_loop_upto n inp h i tot reads = (i', t, r) \<Longrightarrow> \<not> i' \<le> h
     \<Longrightarrow> sum_loop inp h i tot reads = Some (t, r)"
proof (induction n arbitrary: i tot reads)
  case 0
  then show ?case by (simp add: sum_loop_exit)
next
  case (Suc n)
  then show ?case
    by (cases "i \<le> h") (simp_all add: sum_loop_step sum_loop_exit)
qed

lemma sum_loop_upto_reaches:
  assumes "sum_loop inp h i tot reads = Some y"
  shows "\<exists>n i'. sum_loop_upto n inp h i tot reads = (i', fst y, snd y) \<and> \<not> i' \<le> h"
proof (rule sum_loop.raw_induct
    [where P = "\<lambda>inp h i tot reads y.
       \<exists>n i'. sum_loop_upto n inp h i tot reads = (i', fst y, snd y) \<and> \<not> i' \<le> h", OF _ assms])
  fix f :: "(coord_t \<Rightarrow> float32) \<Rightarrow> coord_t \<Rightarrow> size_t \<Rightarrow> float32 \<Rightarrow> coord_t list
              \<Rightarrow> (float32 \<times> coord_t list) option"
    and inp and h i :: "64 word" and tot reads y
  assume ih: "\<And>inp h i tot reads y. f inp h i tot reads = Some y \<Longrightarrow>
      \<exists>n i'. sum_loop_upto n inp h i tot reads = (i', fst y, snd y) \<and> \<not> i' \<le> h"
    and body: "(if i \<le> h then f inp h (i + 1) (fadd tot (inp i)) (reads @ [i])
          else Some (tot, reads)) = Some y"
  show "\<exists>n i'. sum_loop_upto n inp h i tot reads = (i', fst y, snd y) \<and> \<not> i' \<le> h"
  proof (cases "i \<le> h")
    case True
    with body have "f inp h (i + 1) (fadd tot (inp i)) (reads @ [i]) = Some y" by simp
    from ih [OF this] obtain n i' where
      "sum_loop_upto n inp h (i + 1) (fadd tot (inp i)) (reads @ [i]) = (i', fst y, snd y)"
      "\<not> i' \<le> h" by blast
    then have "sum_loop_upto (Suc n) inp h i tot reads = (i', fst y, snd y) \<and> \<not> i' \<le> h"
      using True by simp
    then show ?thesis by blast
  next
    case False
    with body have "sum_loop_upto 0 inp h i tot reads = (i, fst y, snd y) \<and> \<not> i \<le> h" by auto
    then show ?thesis by blast
  qed
qed

section \<open>Properties of the task\<close>

lemma cpu_variant_returns:
  assumes "inputs context = input # more_inputs"
    and "reductions context = output # more_reductions"
    and "code output = FLOAT_LT" and "dim output = 1" and "shape output = \<lparr>lo = 0, hi = 0\<rparr>"
    and "sum_loop (contents input) (hi (shape input)) (lo (shape input)) (float_of_int 0) []
           = Some (tot, reads)"
  shows "cpu_variant context =
           Some (Log (lo (shape input)) (hi (shape input)) # map Read reads @ [Reduce 0 tot],
                 Inr (context\<lparr>reductions := reduce output 0 tot # more_reductions\<rparr>))"
  using assms by (simp add: cpu_variant_def Let_def)

lemma example_first_half:
  "sum_loop example_array 1 0 (float_of_int 0) [] = Some (float_of_int 3, [0, 1])"
  by (simp add: sum_loop_nonneg [OF refl] example_array_def array_of_def upto_rec1 float_eval)

lemma example_second_half:
  "sum_loop example_array 3 2 (float_of_int 0) [] = Some (float_of_int 7, [2, 3])"
  by (simp add: sum_loop_nonneg [OF refl] example_array_def array_of_def upto_rec1 float_eval)

text \<open>Once the loop has ended, the three assertions decide between the reduce and the abort.\<close>

lemma cpu_variant_unfold:
  assumes "inputs context = input # more_inputs"
    and "reductions context = output # more_reductions"
    and "sum_loop (contents input) (hi (shape input)) (lo (shape input)) (float_of_int 0) []
           = Some (tot, reads)"
  shows "cpu_variant context =
     (if code output = FLOAT_LT \<and> dim output = 1 \<and> shape output = \<lparr>lo = 0, hi = 0\<rparr>
      then Some (Log (lo (shape input)) (hi (shape input)) # map Read reads @ [Reduce 0 tot],
                 Inr (context\<lparr>reductions := reduce output 0 tot # more_reductions\<rparr>))
      else Some (Log (lo (shape input)) (hi (shape input)) # map Read reads, Inl AssertionFailed))"
  using assms by (simp add: cpu_variant_def Let_def)

lemma cpu_variant_loops:
  assumes "inputs context = input # more_inputs"
    and "sum_loop (contents input) (hi (shape input)) (lo (shape input)) (float_of_int 0) [] = None"
  shows "cpu_variant context = None"
  using assms by (simp add: cpu_variant_def Let_def)

text \<open>Reads are only ever added, so what a cut-off run has read the full run has read too.\<close>

lemma sum_loop_keeps_reads:
  assumes "sum_loop inp h i tot reads = Some y"
  shows "set reads \<subseteq> set (snd y)"
proof (rule sum_loop.raw_induct
    [where P = "\<lambda>inp h i tot reads y. set reads \<subseteq> set (snd y)", OF _ assms])
  fix f :: "(coord_t \<Rightarrow> float32) \<Rightarrow> coord_t \<Rightarrow> size_t \<Rightarrow> float32 \<Rightarrow> coord_t list
              \<Rightarrow> (float32 \<times> coord_t list) option"
    and inp and h i :: "64 word" and tot reads y
  assume "\<And>inp h i tot reads y. f inp h i tot reads = Some y \<Longrightarrow> set reads \<subseteq> set (snd y)"
    and "(if i \<le> h then f inp h (i + 1) (fadd tot (inp i)) (reads @ [i])
          else Some (tot, reads)) = Some y"
  then show "set reads \<subseteq> set (snd y)" by (cases "i \<le> h") fastforce+
qed

lemma sum_loop_upto_reads:
  "sum_loop inp h i tot reads = Some (t, r)
     \<Longrightarrow> set (snd (snd (sum_loop_upto n inp h i tot reads))) \<subseteq> set r"
proof (induction n arbitrary: i tot reads)
  case 0
  then show ?case using sum_loop_keeps_reads by fastforce
next
  case (Suc n)
  show ?case
  proof (cases "i \<le> h")
    case True
    then show ?thesis using Suc by (simp add: sum_loop_step)
  next
    case False
    then show ?thesis using Suc.prems sum_loop_keeps_reads by fastforce
  qed
qed

lemma sint_word_of_int_between:
  fixes l h :: "64 word"
  assumes "sint l \<le> k" and "k \<le> sint h"
  shows "sint (word_of_int k :: 64 word) = k"
proof -
  have "- (2 ^ 63) \<le> k" using sint_ge [of l] assms by simp
  moreover have "k < 2 ^ 63" using sint_lt [of h] assms by simp
  ultimately show ?thesis by (simp add: sint_sbintrunc' signed_take_bit_int_eq_self)
qed

text \<open>
  What a point task over a segment with bounds that are not negative contributes, and what
  it comes to when the elements are small integers.
\<close>

lemma contribution_nonneg:
  assumes "0 \<le> sint (lo r)" and "sint (lo r) \<le> sint (hi r)"
  shows "contribution f r
           = Some (fadd (float_of_int 0)
                     (foldl fadd (float_of_int 0)
                        (map (\<lambda>k. f (word_of_int k)) [sint (lo r)..sint (hi r)])))"
proof -
  have "sum_loop f (hi r) (lo r) (float_of_int 0) []
          = Some (foldl fadd (float_of_int 0) (map (\<lambda>k. f (word_of_int k)) [sint (lo r)..sint (hi r)]),
                  map word_of_int [sint (lo r)..sint (hi r)])"
    using assms sum_loop_nonneg [OF refl, of "lo r" "hi r"] by simp
  then show ?thesis
    by (simp add: contribution_def cpu_variant_def point_task_def float_store_def
        accumulator_def reduce_def)
qed

lemma segment_sum_exact:
  assumes "\<forall>k. l \<le> k \<and> k \<le> h \<longrightarrow> f (word_of_int k) = float_of_int (v k)"
    and "(\<Sum>k\<leftarrow>[l..h]. \<bar>v k\<bar>) < 2 ^ 24"
  shows "fadd (float_of_int 0) (foldl fadd (float_of_int 0) (map (\<lambda>k. f (word_of_int k)) [l..h]))
           = float_of_int (\<Sum>k\<leftarrow>[l..h]. v k)"
    and "foldl fadd (float_of_int 0) (map (\<lambda>k. f (word_of_int k)) [l..h])
           = float_of_int (\<Sum>k\<leftarrow>[l..h]. v k)"
proof -
  have m: "map (\<lambda>k. f (word_of_int k)) [l..h] = map float_of_int (map v [l..h])"
    using assms(1) by simp
  have "\<bar>0\<bar> + (\<Sum>x\<leftarrow>map v [l..h]. \<bar>x\<bar>) < (2 ^ 24 :: int)"
    using assms(2) by (simp add: comp_def)
  then show s: "foldl fadd (float_of_int 0) (map (\<lambda>k. f (word_of_int k)) [l..h])
           = float_of_int (\<Sum>k\<leftarrow>[l..h]. v k)"
    unfolding m using foldl_fadd_exact [of 0 "map v [l..h]"] by simp
  have "\<bar>\<Sum>k\<leftarrow>[l..h]. v k\<bar> \<le> (\<Sum>k\<leftarrow>[l..h]. \<bar>v k\<bar>)"
    using sum_list_abs [of "map v [l..h]"] by (simp add: comp_def)
  then have "\<bar>\<Sum>k\<leftarrow>[l..h]. v k\<bar> < 2 ^ 24" using assms(2) by simp
  then show "fadd (float_of_int 0) (foldl fadd (float_of_int 0) (map (\<lambda>k. f (word_of_int k)) [l..h]))
           = float_of_int (\<Sum>k\<leftarrow>[l..h]. v k)"
    unfolding s using fadd_exact [of 0 "\<Sum>k\<leftarrow>[l..h]. v k"] by simp
qed

lemma tiling_contributions:
  assumes "tiling a segs b" and "0 \<le> a"
    and "\<forall>k. a \<le> k \<and> k \<le> b \<longrightarrow> f (word_of_int k) = float_of_int (v k)"
    and "(\<Sum>k\<leftarrow>[a..b]. \<bar>v k\<bar>) < 2 ^ 24"
  shows "(\<forall>r\<in>set segs. contribution f r
             = Some (float_of_int (\<Sum>k\<leftarrow>[sint (lo r)..sint (hi r)]. v k)))
           \<and> (\<Sum>r\<leftarrow>segs. \<Sum>k\<leftarrow>[sint (lo r)..sint (hi r)]. v k) = (\<Sum>k\<leftarrow>[a..b]. v k)
           \<and> (\<Sum>r\<leftarrow>segs. \<bar>\<Sum>k\<leftarrow>[sint (lo r)..sint (hi r)]. v k\<bar>) \<le> (\<Sum>k\<leftarrow>[a..b]. \<bar>v k\<bar>)"
  using assms
proof (induction segs arbitrary: a)
  case Nil
  then show ?case by simp
next
  case (Cons r rs)
  let ?h = "sint (hi r)"
  from Cons.prems(1) have r: "sint (lo r) = a" "a \<le> ?h" "?h \<le> b" "tiling (?h + 1) rs b"
    by simp_all
  have split: "[a..b] = [a..?h] @ [?h + 1..b]"
    using r(2,3) by (rule upto_split2)
  have nn: "0 \<le> (\<Sum>k\<leftarrow>[a..?h]. \<bar>v k\<bar>)" "0 \<le> (\<Sum>k\<leftarrow>[?h + 1..b]. \<bar>v k\<bar>)"
    by (rule sum_list_nonneg, auto)+
  have bound: "(\<Sum>k\<leftarrow>[a..?h]. \<bar>v k\<bar>) + (\<Sum>k\<leftarrow>[?h + 1..b]. \<bar>v k\<bar>) < 2 ^ 24"
    using Cons.prems(4) unfolding split by simp
  have later: "\<forall>k. ?h + 1 \<le> k \<and> k \<le> b \<longrightarrow> f (word_of_int k) = float_of_int (v k)"
    using Cons.prems(3) r(2) by simp
  have "0 \<le> ?h + 1" "(\<Sum>k\<leftarrow>[?h + 1..b]. \<bar>v k\<bar>) < 2 ^ 24"
    using Cons.prems(2) r(2) nn bound by simp_all
  from Cons.IH [OF r(4) this(1) later this(2)]
  have ih: "\<forall>r\<in>set rs. contribution f r
             = Some (float_of_int (\<Sum>k\<leftarrow>[sint (lo r)..sint (hi r)]. v k))"
      "(\<Sum>r\<leftarrow>rs. \<Sum>k\<leftarrow>[sint (lo r)..sint (hi r)]. v k) = (\<Sum>k\<leftarrow>[?h + 1..b]. v k)"
      "(\<Sum>r\<leftarrow>rs. \<bar>\<Sum>k\<leftarrow>[sint (lo r)..sint (hi r)]. v k\<bar>) \<le> (\<Sum>k\<leftarrow>[?h + 1..b]. \<bar>v k\<bar>)"
    by simp_all
  have here: "\<forall>k. a \<le> k \<and> k \<le> ?h \<longrightarrow> f (word_of_int k) = float_of_int (v k)"
    using Cons.prems(3) r(3) by simp
  have "(\<Sum>k\<leftarrow>[a..?h]. \<bar>v k\<bar>) < 2 ^ 24" using bound nn by simp
  from segment_sum_exact(1) [OF here this]
  have c: "contribution f r = Some (float_of_int (\<Sum>k\<leftarrow>[a..?h]. v k))"
    using contribution_nonneg [of r f] r(1,2) Cons.prems(2) by simp
  have abs: "\<bar>\<Sum>k\<leftarrow>[a..?h]. v k\<bar> \<le> (\<Sum>k\<leftarrow>[a..?h]. \<bar>v k\<bar>)"
    using sum_list_abs [of "map v [a..?h]"] by (simp add: comp_def)
  show ?case
    using c ih abs r(1) unfolding split by simp
qed

lemma sum_list_reordered:
  fixes g :: "'a \<Rightarrow> int"
  assumes "mset xs = mset ys"
  shows "sum_list (map g xs) = sum_list (map g ys)"
proof -
  have "sum_list (map g xs) = sum_mset (image_mset g (mset xs))"
    by (simp flip: sum_mset_sum_list)
  also have "\<dots> = sum_list (map g ys)"
    unfolding assms by (simp flip: sum_mset_sum_list)
  finally show ?thesis .
qed

text \<open>
  The assertions stand after the loop and before the reduce. An invocation that reaches
  them (store 0 of the inputs and of the reductions exist, and the loop has ended) is
  stopped by a failed assertion exactly when the reduction store is not of type
  \<^verbatim>\<open>FLOAT_LT\<close>, or not of dimension 1, or not of shape \<open>[0, 0]\<close>; a stopped invocation has
  reduced nothing, and every other one ends with its reduce into element 0.
\<close>

lemma assertions_guard_the_reduce:
  assumes "inputs context = input # more_inputs"
    and "reductions context = output # more_reductions"
    and "hi (shape input) \<noteq> - 1"
  shows "\<exists>events result. cpu_variant context = Some (events, result)
           \<and> (result = Inl AssertionFailed
                \<longleftrightarrow> \<not> (code output = FLOAT_LT \<and> dim output = 1
                         \<and> shape output = \<lparr>lo = 0, hi = 0\<rparr>))
           \<and> (result = Inl AssertionFailed \<longrightarrow> (\<forall>p v. Reduce p v \<notin> set events))
           \<and> (result \<noteq> Inl AssertionFailed
                \<longrightarrow> (\<exists>v. result = Inr (context\<lparr>reductions := reduce output 0 v # more_reductions\<rparr>)
                         \<and> last events = Reduce 0 v))"
proof -
  obtain tot reads where
    "sum_loop (contents input) (hi (shape input)) (lo (shape input)) (float_of_int 0) []
       = Some (tot, reads)"
    using sum_loop_ends [OF assms(3)] by blast
  from cpu_variant_unfold [OF assms(1,2) this] show ?thesis
    by (cases "code output = FLOAT_LT \<and> dim output = 1 \<and> shape output = \<lparr>lo = 0, hi = 0\<rparr>")
       auto
qed

lemma assertions_guard_the_reduce_example:
  "\<exists>events. cpu_variant \<lparr>inputs = [float_store \<lparr>lo = 0, hi = 1\<rparr> example_array], outputs = [],
                  reductions = [accumulator\<lparr>code := DOUBLE_LT\<rparr>]\<rparr> = Some (events, Inl AssertionFailed)
       \<and> (\<forall>p v. Reduce p v \<notin> set events)"
  using assertions_guard_the_reduce [of "\<lparr>inputs = [float_store \<lparr>lo = 0, hi = 1\<rparr> example_array], outputs = [],
                  reductions = [accumulator\<lparr>code := DOUBLE_LT\<rparr>]\<rparr>" "float_store \<lparr>lo = 0, hi = 1\<rparr> example_array"
         "[]" "accumulator\<lparr>code := DOUBLE_LT\<rparr>" "[]"]
  by (simp add: float_store_def)

text \<open>
  A case without rounding: an array of integers whose absolute values add up to less than
  \<open>2^24\<close>. Every point task returns and the contributions, added up in any order of the
  tasks, give the sequential sum of the whole array.
\<close>

lemma partition_total_small_integers:
  assumes "tiling a segs b" and "0 \<le> a"
    and "\<forall>k. a \<le> k \<and> k \<le> b \<longrightarrow> f (word_of_int k) = float_of_int (v k)"
    and "(\<Sum>k\<leftarrow>[a..b]. \<bar>v k\<bar>) < 2 ^ 24"
    and "mset tasks = mset segs"
  shows "\<exists>cs. map (contribution f) tasks = map Some cs
           \<and> combine cs = foldl fadd (float_of_int 0) (map (\<lambda>k. f (word_of_int k)) [a..b])"
proof -
  let ?S = "\<lambda>r. \<Sum>k\<leftarrow>[sint (lo r)..sint (hi r)]. v k"
  from tiling_contributions [OF assms(1-4)]
  have each: "\<forall>r\<in>set segs. contribution f r = Some (float_of_int (?S r))"
    and total: "(\<Sum>r\<leftarrow>segs. ?S r) = (\<Sum>k\<leftarrow>[a..b]. v k)"
    and size: "(\<Sum>r\<leftarrow>segs. \<bar>?S r\<bar>) \<le> (\<Sum>k\<leftarrow>[a..b]. \<bar>v k\<bar>)"
    by simp_all
  have "set tasks = set segs" using assms(5) by (rule mset_eq_setD)
  then have cs: "map (contribution f) tasks = map Some (map float_of_int (map ?S tasks))"
    using each by simp
  have "(\<Sum>r\<leftarrow>tasks. \<bar>?S r\<bar>) = (\<Sum>r\<leftarrow>segs. \<bar>?S r\<bar>)"
    using assms(5) by (rule sum_list_reordered)
  then have "\<bar>0\<bar> + (\<Sum>s\<leftarrow>map ?S tasks. \<bar>s\<bar>) < (2 ^ 24 :: int)"
    using size assms(4) by (simp add: comp_def)
  then have "combine (map float_of_int (map ?S tasks)) = float_of_int (0 + sum_list (map ?S tasks))"
    unfolding combine_def by (rule foldl_fadd_exact)
  also have "sum_list (map ?S tasks) = sum_list (map ?S segs)"
    using assms(5) by (rule sum_list_reordered)
  also have "float_of_int (0 + sum_list (map ?S segs))
      = foldl fadd (float_of_int 0) (map (\<lambda>k. f (word_of_int k)) [a..b])"
    using segment_sum_exact(2) [OF assms(3,4)] total by simp
  finally show ?thesis using cs by blast
qed

text \<open>Partitions and additions that do not round.\<close>

lemma zero_float: "float_of_int 0 = Finite False 0 (- 149)"
  by (simp add: float_of_int_def round_float32_def)

lemma sum_list_map_concat:
  fixes g :: "'a \<Rightarrow> int"
  shows "sum_list (map g (concat xss)) = (\<Sum>xs\<leftarrow>xss. sum_list (map g xs))"
  by (induction xss) simp_all

lemma tiling_concat:
  assumes "tiling a segs b" and "0 \<le> a"
  shows "map g [a..b] = concat (map (\<lambda>r. map g [sint (lo r)..sint (hi r)]) segs)
           \<and> (\<forall>r\<in>set segs. 0 \<le> sint (lo r) \<and> sint (lo r) \<le> sint (hi r))"
  using assms
proof (induction segs arbitrary: a)
  case Nil
  then show ?case by simp
next
  case (Cons r rs)
  let ?h = "sint (hi r)"
  from Cons.prems(1) have r: "sint (lo r) = a" "a \<le> ?h" "?h \<le> b" "tiling (?h + 1) rs b"
    by simp_all
  have split: "[a..b] = [a..?h] @ [?h + 1..b]"
    using r(2,3) by (rule upto_split2)
  have "0 \<le> ?h + 1" using Cons.prems(2) r(2) by simp
  from Cons.IH [OF r(4) this] show ?case
    using r(1,2) Cons.prems(2) unfolding split by simp
qed

lemma task_exact_contribution:
  assumes "task_exact f r"
  shows "finite_float (fadd (float_of_int 0) (foldl fadd (float_of_int 0) (segment f r)))
         \<and> \<not> negative_zero (fadd (float_of_int 0) (foldl fadd (float_of_int 0) (segment f r)))
         \<and> units (fadd (float_of_int 0) (foldl fadd (float_of_int 0) (segment f r)))
             = sum_list (map units (segment f r))"
proof -
  let ?z = "float_of_int 0"
  have z: "finite_float ?z" "\<not> negative_zero ?z" "units ?z = 0"
    by (simp_all add: zero_float signed_value_def)
  from assms have s: "exact_sum ?z (segment f r)"
    and a: "exact_add ?z (foldl fadd ?z (segment f r))"
    by (simp_all add: task_exact_def)
  have t: "units (foldl fadd ?z (segment f r)) = sum_list (map units (segment f r))"
    using exact_sum_fold [OF z(1,2) s] z(3) by simp
  have "\<not> negative_zero (fadd ?z (foldl fadd ?z (segment f r)))"
    using a z(2) by (rule exact_add_keeps_sign_of_zero)
  then show ?thesis using a t z(3) by (simp add: exact_add_def)
qed

lemmas exact_eval = exact_add_def task_exact_def segment_def halves_array_def half_def
  array_of_def upto_rec1 float_eval

section \<open>The claims\<close>

text \<open>
  Claim C1, as stated, for every pair of bounds with \<open>lo \<le> hi\<close>: it fails where the
  lower bound is negative. Over \<open>[-2, 3]\<close> the index starts at the unsigned reading of
  \<open>-2\<close>, above the bound, so nothing is read and 0.0 is contributed, while the elements
  at \<open>-2, ..., 3\<close> of a store of ones sum to 6.0.
\<close>

theorem partial_sum_counterexample:
  "sint (- 2 :: coord_t) \<le> sint (3 :: coord_t)
   \<and> (\<exists>context'. cpu_variant (point_task (float_store \<lparr>lo = - 2, hi = 3\<rparr> (\<lambda>p. float_of_int 1)))
         = Some ([Log (- 2) 3, Reduce 0 (float_of_int 0)], Inr context'))
   \<and> foldl fadd (float_of_int 0)
         (map (\<lambda>k. (\<lambda>p. float_of_int 1) (word_of_int k :: coord_t)) [sint (- 2 :: coord_t)..sint (3 :: coord_t)])
       = float_of_int 6
   \<and> float_of_int 6 \<noteq> float_of_int 0"
proof -
  have a: "sum_loop (\<lambda>p. float_of_int 1) 3 (- 2) (float_of_int 0) [] = Some (float_of_int 0, [])"
    by (simp add: sum_loop_exit)
  have b: "\<exists>context'. cpu_variant (point_task (float_store \<lparr>lo = - 2, hi = 3\<rparr> (\<lambda>p. float_of_int 1)))
         = Some ([Log (- 2) 3, Reduce 0 (float_of_int 0)], Inr context')"
    by (simp add: cpu_variant_def point_task_def float_store_def accumulator_def a)
  have c: "foldl fadd (float_of_int 0)
         (map (\<lambda>k. (\<lambda>p. float_of_int 1) (word_of_int k :: coord_t)) [sint (- 2 :: coord_t)..sint (3 :: coord_t)])
       = float_of_int 6"
    by (simp add: upto_rec1 float_eval)
  have d: "float_of_int 6 \<noteq> float_of_int 0"
    by (simp add: float_eval)
  show ?thesis using b c d by simp
qed

text \<open>
  Claim C1, amended: for bounds with \<open>0 \<le> lo \<le> hi\<close> (the index is a \<^verbatim>\<open>size_t\<close>),
  the task reads the elements at \<open>lo, lo + 1, ..., hi\<close> in this order and the value it
  reduces into its accumulator is their sum, added one by one from the left to 0.
\<close>

theorem partial_sum_in_index_order:
  assumes "inputs context = input # more_inputs"
    and "reductions context = output # more_reductions"
    and "code output = FLOAT_LT" and "dim output = 1" and "shape output = \<lparr>lo = 0, hi = 0\<rparr>"
    and "0 \<le> sint (lo (shape input))"
    and "sint (lo (shape input)) \<le> sint (hi (shape input))"
  shows "cpu_variant context =
           Some (Log (lo (shape input)) (hi (shape input))
                   # map Read (map word_of_int [sint (lo (shape input))..sint (hi (shape input))])
                   @ [Reduce 0 (foldl fadd (float_of_int 0)
                        (map (\<lambda>k. contents input (word_of_int k))
                           [sint (lo (shape input))..sint (hi (shape input))]))],
                 Inr (context\<lparr>reductions :=
                        reduce output 0 (foldl fadd (float_of_int 0)
                          (map (\<lambda>k. contents input (word_of_int k))
                             [sint (lo (shape input))..sint (hi (shape input))]))
                        # more_reductions\<rparr>))"
proof -
  have "sum_loop (contents input) (hi (shape input)) (lo (shape input)) (float_of_int 0) []
          = Some (foldl fadd (float_of_int 0)
                    (map (\<lambda>k. contents input (word_of_int k))
                       [sint (lo (shape input))..sint (hi (shape input))]),
                  map word_of_int [sint (lo (shape input))..sint (hi (shape input))])"
    using assms(6,7) sum_loop_nonneg [OF refl, of "lo (shape input)" "hi (shape input)"] by simp
  then show ?thesis
    using assms(1-5) by (rule cpu_variant_returns [rotated 5])
qed

theorem partial_sum_in_index_order_witness:
  "cpu_variant (point_task (float_store \<lparr>lo = 1, hi = 3\<rparr> example_array)) =
     Some ([Log 1 3, Read 1, Read 2, Read 3, Reduce 0 (float_of_int 9)],
       Inr ((point_task (float_store \<lparr>lo = 1, hi = 3\<rparr> example_array))
             \<lparr>reductions := [reduce accumulator 0 (float_of_int 9)]\<rparr>))"
proof -
  have "foldl fadd (float_of_int 0) (map (\<lambda>k. example_array (word_of_int k)) [1..3]) = float_of_int 9"
    by (simp add: upto_rec1 example_array_def array_of_def float_eval)
  then show ?thesis
  using partial_sum_in_index_order [of "point_task (float_store \<lparr>lo = 1, hi = 3\<rparr> example_array)"
      "float_store \<lparr>lo = 1, hi = 3\<rparr> example_array" "[]" accumulator "[]"]
  by (simp add: point_task_def float_store_def accumulator_def upto_rec1)
qed

text \<open>
  Claim C2. For a segment presented with \<open>hi < lo\<close> the loop should read nothing and
  the task should contribute 0.0. The code does not do so on the empty range \<open>[0, -1]\<close>,
  the bounds of a store of no elements: the bound \<open>-1\<close> is compared as the largest
  unsigned index, so the first test of the loop succeeds, element 0 is read and added,
  and the loop never ends.
\<close>

theorem empty_range_is_read:
  "sint (- 1 :: coord_t) < sint (0 :: coord_t)
   \<and> sum_loop_upto (Suc 0) inp (- 1) 0 (float_of_int 0) []
       = (1, fadd (float_of_int 0) (inp 0), [0])
   \<and> sum_loop inp (- 1) 0 (float_of_int 0) [] = None"
  by (simp add: sum_loop_never_ends)

text \<open>
  Claim C3. On the array \<open>[1.0, 2.0, 3.0, 4.0]\<close> the point task over \<open>[0, 1]\<close>
  reads elements 0 and 1 and reduces 3.0 into its accumulator, the point task over
  \<open>[2, 3]\<close> reads elements 2 and 3 and reduces 7.0, and 3.0 + 7.0 is 10.0.
\<close>

theorem example_scenario:
  "cpu_variant (point_task (float_store \<lparr>lo = 0, hi = 1\<rparr> example_array))
     = Some ([Log 0 1, Read 0, Read 1, Reduce 0 (float_of_int 3)],
             Inr \<lparr>inputs = [float_store \<lparr>lo = 0, hi = 1\<rparr> example_array], outputs = [],
                  reductions = [float_store \<lparr>lo = 0, hi = 0\<rparr>
                                  ((\<lambda>p. float_of_int 0)(0 := float_of_int 3))]\<rparr>)
   \<and> cpu_variant (point_task (float_store \<lparr>lo = 2, hi = 3\<rparr> example_array))
     = Some ([Log 2 3, Read 2, Read 3, Reduce 0 (float_of_int 7)],
             Inr \<lparr>inputs = [float_store \<lparr>lo = 2, hi = 3\<rparr> example_array], outputs = [],
                  reductions = [float_store \<lparr>lo = 0, hi = 0\<rparr>
                                  ((\<lambda>p. float_of_int 0)(0 := float_of_int 7))]\<rparr>)
   \<and> fadd (float_of_int 3) (float_of_int 7) = float_of_int 10
   \<and> float_of_int 3 = Finite False 12582912 (- 22)
   \<and> float_of_int 7 = Finite False 14680064 (- 21)
   \<and> float_of_int 10 = Finite False 10485760 (- 20)"
proof -
  have a: "fadd (float_of_int 0) (float_of_int 3) = float_of_int 3"
    by (simp add: float_eval)
  have b: "fadd (float_of_int 0) (float_of_int 7) = float_of_int 7"
    by (simp add: float_eval)
  have c: "cpu_variant (point_task (float_store \<lparr>lo = 0, hi = 1\<rparr> example_array))
     = Some ([Log 0 1, Read 0, Read 1, Reduce 0 (float_of_int 3)],
             Inr \<lparr>inputs = [float_store \<lparr>lo = 0, hi = 1\<rparr> example_array], outputs = [],
                  reductions = [float_store \<lparr>lo = 0, hi = 0\<rparr>
                                  ((\<lambda>p. float_of_int 0)(0 := float_of_int 3))]\<rparr>)"
    using a
    by (simp add: cpu_variant_def point_task_def float_store_def accumulator_def reduce_def
        example_first_half)
  have d: "cpu_variant (point_task (float_store \<lparr>lo = 2, hi = 3\<rparr> example_array))
     = Some ([Log 2 3, Read 2, Read 3, Reduce 0 (float_of_int 7)],
             Inr \<lparr>inputs = [float_store \<lparr>lo = 2, hi = 3\<rparr> example_array], outputs = [],
                  reductions = [float_store \<lparr>lo = 0, hi = 0\<rparr>
                                  ((\<lambda>p. float_of_int 0)(0 := float_of_int 7))]\<rparr>)"
    using b
    by (simp add: cpu_variant_def point_task_def float_store_def accumulator_def reduce_def
        example_second_half)
  have e: "fadd (float_of_int 3) (float_of_int 7) = float_of_int 10"
    by (simp add: float_eval)
  have f: "float_of_int 3 = Finite False 12582912 (- 22)"
    "float_of_int 7 = Finite False 14680064 (- 21)"
    "float_of_int 10 = Finite False 10485760 (- 20)"
    by (simp_all add: float_eval)
  show ?thesis using c d e f by blast
qed

text \<open>
  Claim C4. Every invocation whose reduction store violates one of the three preconditions
  should be stopped by the assertion. The assertions stand after the loop, and the code
  does not reach them on the empty input range \<open>[0, -1]\<close>: with an accumulator of
  type \<^verbatim>\<open>DOUBLE_LT\<close> the invocation is not aborted, it never returns.
\<close>

theorem violated_precondition_not_asserted:
  "code (accumulator\<lparr>code := DOUBLE_LT\<rparr>) \<noteq> FLOAT_LT
   \<and> cpu_variant \<lparr>inputs = [float_store \<lparr>lo = 0, hi = - 1\<rparr> f], outputs = [],
                   reductions = [accumulator\<lparr>code := DOUBLE_LT\<rparr>]\<rparr> = None"
  by (simp add: cpu_variant_def float_store_def sum_loop_never_ends)

text \<open>
  Claim C5, as stated, for every invocation, with the reduce as the only effect: it fails
  twice. An invocation also writes a line to the log, and an invocation stopped by an
  assertion writes the accumulator not once but never.
\<close>

theorem effects_counterexample:
  "(\<exists>events result. cpu_variant (point_task (float_store \<lparr>lo = 0, hi = 1\<rparr> example_array))
                      = Some (events, result) \<and> Log 0 1 \<in> set events)
   \<and> (\<exists>events. cpu_variant \<lparr>inputs = [float_store \<lparr>lo = 0, hi = 1\<rparr> example_array], outputs = [],
                    reductions = [accumulator\<lparr>dim := 2\<rparr>]\<rparr> = Some (events, Inl AssertionFailed)
                 \<and> (\<forall>p v. Reduce p v \<notin> set events))"
  by (simp add: cpu_variant_def point_task_def float_store_def accumulator_def example_first_half)

text \<open>
  Claim C5, amended: an invocation that returns has logged one line with the bounds, read
  elements of input store 0, and applied exactly one reduce, to element 0 of reduction
  store 0, as its last action; the context it leaves differs from the one it got in that
  element only (the inputs, the outputs and the other reduction stores are the same). An
  invocation stopped by an error has reduced nothing.
\<close>

theorem effects_of_an_invocation:
  assumes "cpu_variant context = Some (events, result)"
  shows "(\<forall>context'. result = Inr context' \<longrightarrow>
            (\<exists>input more_inputs output more_reductions reads v.
               inputs context = input # more_inputs
               \<and> reductions context = output # more_reductions
               \<and> events = Log (lo (shape input)) (hi (shape input)) # map Read reads @ [Reduce 0 v]
               \<and> inputs context' = inputs context
               \<and> outputs context' = outputs context
               \<and> reductions context'
                   = output\<lparr>contents := (contents output)(0 := fadd (contents output 0) v)\<rparr>
                     # more_reductions))
       \<and> (\<forall>e. result = Inl e \<longrightarrow> inputs context = [] \<or> (\<exists>input more_inputs reads.
               inputs context = input # more_inputs
               \<and> events = Log (lo (shape input)) (hi (shape input)) # map Read reads))"
  using assms
  apply (auto simp add: cpu_variant_def Let_def reduce_def split: list.splits option.splits if_splits)
  apply blast+
  done

theorem effects_of_an_invocation_witness:
  "\<exists>context'. cpu_variant (point_task (float_store \<lparr>lo = 0, hi = 1\<rparr> example_array))
       = Some ([Log 0 1, Read 0, Read 1, Reduce 0 (float_of_int 3)], Inr context')
     \<and> inputs context' = [float_store \<lparr>lo = 0, hi = 1\<rparr> example_array]
     \<and> outputs context' = []
     \<and> (\<exists>v. reductions context'
              = [accumulator\<lparr>contents := (contents accumulator)(0 := fadd (contents accumulator 0) v)\<rparr>])"
proof -
  let ?task = "point_task (float_store \<lparr>lo = 0, hi = 1\<rparr> example_array)"
  have known: "cpu_variant ?task =
    Some ([Log 0 1, Read 0, Read 1, Reduce 0 (float_of_int 3)],
        Inr (?task\<lparr>reductions := [reduce accumulator 0 (float_of_int 3)]\<rparr>))"
    by (simp add: cpu_variant_def point_task_def float_store_def accumulator_def
        example_first_half)
  from effects_of_an_invocation [OF known] show ?thesis
    unfolding known by (auto simp add: point_task_def)
qed

text \<open>
  Claim C6, as stated, for every array and every partition: it fails, because the addition
  of floats rounds. Of the array \<open>[16777216.0, 1.0, 1.0]\<close> the point tasks over
  \<open>[0, 0]\<close> and \<open>[1, 2]\<close> contribute 16777216.0 and 2.0, which add up to
  16777218.0, while the one point task over \<open>[0, 2]\<close> contributes 16777216.0, the
  sequential sum: each 1.0 added to 16777216.0 is rounded away.
\<close>

theorem partition_total_counterexample:
  "tiling 0 [\<lparr>lo = 0, hi = 0\<rparr>, \<lparr>lo = 1, hi = 2\<rparr>] 2
   \<and> map (contribution rounding_array) [\<lparr>lo = 0, hi = 0\<rparr>, \<lparr>lo = 1, hi = 2\<rparr>]
       = [Some (float_of_int 16777216), Some (float_of_int 2)]
   \<and> combine [float_of_int 16777216, float_of_int 2] = float_of_int 16777218
   \<and> tiling 0 [\<lparr>lo = 0, hi = 2\<rparr>] 2
   \<and> map (contribution rounding_array) [\<lparr>lo = 0, hi = 2\<rparr>] = [Some (float_of_int 16777216)]
   \<and> combine [float_of_int 16777216] = float_of_int 16777216
   \<and> foldl fadd (float_of_int 0) (map (\<lambda>k. rounding_array (word_of_int k)) [0..2])
       = float_of_int 16777216
   \<and> float_of_int 16777218 \<noteq> float_of_int 16777216"
proof -
  have a: "contribution rounding_array \<lparr>lo = 0, hi = 0\<rparr> = Some (float_of_int 16777216)"
    by (simp add: contribution_nonneg rounding_array_def array_of_def float_eval)
  have b: "contribution rounding_array \<lparr>lo = 1, hi = 2\<rparr> = Some (float_of_int 2)"
    by (simp add: contribution_nonneg rounding_array_def array_of_def upto_rec1 float_eval)
  have c: "contribution rounding_array \<lparr>lo = 0, hi = 2\<rparr> = Some (float_of_int 16777216)"
    by (simp add: contribution_nonneg rounding_array_def array_of_def upto_rec1 float_eval)
  have d: "combine [float_of_int 16777216, float_of_int 2] = float_of_int 16777218"
    "combine [float_of_int 16777216] = float_of_int 16777216"
    by (simp_all add: combine_def float_eval)
  have e: "foldl fadd (float_of_int 0) (map (\<lambda>k. rounding_array (word_of_int k)) [0..2])
       = float_of_int 16777216"
    by (simp add: rounding_array_def array_of_def upto_rec1 float_eval)
  have f: "float_of_int 16777218 \<noteq> float_of_int 16777216"
    by (simp add: float_eval)
  show ?thesis using a b c d e f by simp
qed

text \<open>
  Claim C6, amended: for every array and every partition of its coordinates
  \<open>a, ..., b\<close> (\<open>0 \<le> a\<close>) into consecutive non-empty segments, if no addition rounds,
  neither in the sequential sum of the whole array nor in any point task (its loop and its
  reduce), then every point task returns, in any order of the tasks, and if adding up
  their contributions in that order does not round either, the result is the sequential
  sum of the whole array.
\<close>

theorem partition_total_without_rounding:
  assumes "tiling a segs b" and "0 \<le> a"
    and "mset tasks = mset segs"
    and "exact_sum (float_of_int 0) (map (\<lambda>k. f (word_of_int k)) [a..b])"
    and "\<forall>r\<in>set segs. task_exact f r"
  shows "\<exists>cs. map (contribution f) tasks = map Some cs
           \<and> (exact_sum (float_of_int 0) cs
                \<longrightarrow> combine cs = foldl fadd (float_of_int 0) (map (\<lambda>k. f (word_of_int k)) [a..b]))"
proof -
  let ?z = "float_of_int 0"
  let ?c = "\<lambda>r. fadd ?z (foldl fadd ?z (segment f r))"
  let ?whole = "map (\<lambda>k. f (word_of_int k)) [a..b]"
  have z: "finite_float ?z" "\<not> negative_zero ?z" "units ?z = 0"
    by (simp_all add: zero_float signed_value_def)
  from tiling_concat [OF assms(1,2), of "\<lambda>k. f (word_of_int k)"]
  have whole: "?whole = concat (map (segment f) segs)"
    and bounds: "\<forall>r\<in>set segs. 0 \<le> sint (lo r) \<and> sint (lo r) \<le> sint (hi r)"
    by (simp_all add: segment_def [abs_def])
  have same: "set tasks = set segs" using assms(3) by (rule mset_eq_setD)
  have cs: "map (contribution f) tasks = map Some (map ?c tasks)"
    using bounds same by (simp add: contribution_nonneg segment_def)
  have seq: "finite_float (foldl fadd ?z ?whole)" "\<not> negative_zero (foldl fadd ?z ?whole)"
    "units (foldl fadd ?z ?whole) = sum_list (map units ?whole)"
    using exact_sum_fold [OF z(1,2) assms(4)] z(3) by simp_all
  have "combine (map ?c tasks) = foldl fadd ?z ?whole" if ex: "exact_sum ?z (map ?c tasks)"
  proof -
    have com: "finite_float (combine (map ?c tasks))" "\<not> negative_zero (combine (map ?c tasks))"
      "units (combine (map ?c tasks)) = sum_list (map units (map ?c tasks))"
      using exact_sum_fold [OF z(1,2) ex] z(3) by (simp_all add: combine_def)
    have "map units (map ?c tasks) = map (\<lambda>r. sum_list (map units (segment f r))) tasks"
    proof (simp only: map_map comp_def, rule map_cong [OF refl])
      fix r assume "r \<in> set tasks"
      then have "task_exact f r" using assms(5) same by simp
      then show "units (?c r) = sum_list (map units (segment f r))"
        using task_exact_contribution by blast
    qed
    then have "sum_list (map units (map ?c tasks)) = (\<Sum>r\<leftarrow>tasks. sum_list (map units (segment f r)))"
      by (rule arg_cong)
    also have "\<dots> = (\<Sum>r\<leftarrow>segs. sum_list (map units (segment f r)))"
      using assms(3) by (rule sum_list_reordered)
    also have "\<dots> = sum_list (map units ?whole)"
      unfolding whole by (simp add: sum_list_map_concat comp_def)
    finally have "units (combine (map ?c tasks)) = units (foldl fadd ?z ?whole)"
      using com(3) seq(3) by simp
    with com(1,2) seq(1,2) show ?thesis by (intro units_determine)
  qed
  then show ?thesis using cs by blast
qed

theorem partition_total_without_rounding_witness:
  "map (contribution halves_array) [\<lparr>lo = 1, hi = 3\<rparr>, \<lparr>lo = 0, hi = 0\<rparr>]
     = [Some (Finite False 12582912 (- 23)), Some half]
   \<and> combine [Finite False 12582912 (- 23), half]
     = foldl fadd (float_of_int 0) (map (\<lambda>k. halves_array (word_of_int k)) [0..3])"
proof -
  have t: "tiling 0 [\<lparr>lo = 0, hi = 0\<rparr>, \<lparr>lo = 1, hi = 3\<rparr>] 3" by simp
  have o: "mset [\<lparr>lo = 1, hi = 3\<rparr>, \<lparr>lo = 0, hi = 0 :: coord_t\<rparr>]
             = mset [\<lparr>lo = 0, hi = 0\<rparr>, \<lparr>lo = 1, hi = 3\<rparr>]" by simp
  have s: "exact_sum (float_of_int 0) (map (\<lambda>k. halves_array (word_of_int k)) [0..3])"
    by (simp add: exact_eval)
  have p: "\<forall>r\<in>set [\<lparr>lo = 0, hi = 0\<rparr>, \<lparr>lo = 1, hi = 3\<rparr>]. task_exact halves_array r"
    by (simp add: exact_eval)
  have c: "map (contribution halves_array) [\<lparr>lo = 1, hi = 3\<rparr>, \<lparr>lo = 0, hi = 0\<rparr>]
     = map Some [Finite False 12582912 (- 23), half]"
    by (simp add: contribution_nonneg exact_eval)
  have e: "exact_sum (float_of_int 0) [Finite False 12582912 (- 23), half]"
    by (simp add: exact_eval)
  have a: "(0::int) \<le> 0" by simp
  from partition_total_without_rounding [OF t a o s p] obtain cs where
    "map (contribution halves_array) [\<lparr>lo = 1, hi = 3\<rparr>, \<lparr>lo = 0, hi = 0\<rparr>] = map Some cs"
    "exact_sum (float_of_int 0) cs
       \<longrightarrow> combine cs = foldl fadd (float_of_int 0) (map (\<lambda>k. halves_array (word_of_int k)) [0..3])"
    by blast
  moreover from this(1) c have "cs = [Finite False 12582912 (- 23), half]"
    by (simp add: map_eq_Cons_conv)
  ultimately show ?thesis using c e by simp
qed

text \<open>
  Claim C7. The task should be a total function of its input slice. It is not: on a
  point task whose input store has the empty range \<open>[0, -1]\<close> the invocation never
  returns, whatever the store holds.
\<close>

theorem empty_store_invocation_never_returns:
  "cpu_variant (point_task (float_store \<lparr>lo = 0, hi = - 1\<rparr> f)) = None"
  by (simp add: cpu_variant_def point_task_def float_store_def sum_loop_never_ends)

text \<open>
  Claim C9. The events of an invocation, and with them the value it reduces, are the same
  whatever the accumulator holds; an invocation that returns leaves in element 0 of the
  accumulator the value it held plus that contribution; and an invocation whose loop ends
  and whose assertions hold does return.
\<close>

theorem accumulator_only_added_to:
  assumes "inputs context = input # more_inputs"
    and "reductions context = output # more_reductions"
  shows "map_option fst (cpu_variant (context\<lparr>reductions := output\<lparr>contents := g\<rparr> # more_reductions\<rparr>))
           = map_option fst (cpu_variant context)
       \<and> (\<forall>events context'. cpu_variant context = Some (events, Inr context') \<longrightarrow>
            (\<exists>v. last events = Reduce 0 v
                 \<and> reductions context'
                     = output\<lparr>contents := (contents output)(0 := fadd (contents output 0) v)\<rparr>
                       # more_reductions))
       \<and> (hi (shape input) \<noteq> - 1 \<and> code output = FLOAT_LT \<and> dim output = 1
            \<and> shape output = \<lparr>lo = 0, hi = 0\<rparr>
           \<longrightarrow> (\<exists>events context'. cpu_variant context = Some (events, Inr context')))"
proof (cases "sum_loop (contents input) (hi (shape input)) (lo (shape input)) (float_of_int 0) []")
  case None
  have "hi (shape input) = - 1"
  proof (rule ccontr)
    assume "hi (shape input) \<noteq> - 1"
    from sum_loop_ends [OF this, of "contents input" "lo (shape input)" "float_of_int 0" "[]"]
    show False using None by simp
  qed
  moreover have "cpu_variant context = None"
    using assms(1) None by (rule cpu_variant_loops)
  moreover have "cpu_variant (context\<lparr>reductions := output\<lparr>contents := g\<rparr> # more_reductions\<rparr>) = None"
    using assms(1) None by (intro cpu_variant_loops) simp_all
  ultimately show ?thesis by simp
next
  case (Some y)
  obtain tot reads where y: "y = (tot, reads)" by (cases y)
  have a: "cpu_variant context =
     (if code output = FLOAT_LT \<and> dim output = 1 \<and> shape output = \<lparr>lo = 0, hi = 0\<rparr>
      then Some (Log (lo (shape input)) (hi (shape input)) # map Read reads @ [Reduce 0 tot],
                 Inr (context\<lparr>reductions := reduce output 0 tot # more_reductions\<rparr>))
      else Some (Log (lo (shape input)) (hi (shape input)) # map Read reads, Inl AssertionFailed))"
    using assms Some unfolding y by (rule cpu_variant_unfold)
  have b: "map_option fst (cpu_variant (context\<lparr>reductions := output\<lparr>contents := g\<rparr> # more_reductions\<rparr>))
      = map_option fst (cpu_variant context)"
    using assms Some unfolding y a
    by (subst cpu_variant_unfold [of _ input more_inputs "output\<lparr>contents := g\<rparr>"
          more_reductions tot reads]) auto
  show ?thesis
    unfolding b using a by (auto simp add: reduce_def)
qed

theorem accumulator_only_added_to_witness:
  "map_option fst (cpu_variant ((point_task (float_store \<lparr>lo = 0, hi = 1\<rparr> example_array))
        \<lparr>reductions := [accumulator\<lparr>contents := (\<lambda>p. float_of_int 5)\<rparr>]\<rparr>))
     = Some [Log 0 1, Read 0, Read 1, Reduce 0 (float_of_int 3)]"
proof -
  have "cpu_variant (point_task (float_store \<lparr>lo = 0, hi = 1\<rparr> example_array)) =
    Some ([Log 0 1, Read 0, Read 1, Reduce 0 (float_of_int 3)],
        Inr ((point_task (float_store \<lparr>lo = 0, hi = 1\<rparr> example_array))\<lparr>reductions := [reduce accumulator 0 (float_of_int 3)]\<rparr>))"
    by (simp add: cpu_variant_def point_task_def float_store_def accumulator_def example_first_half)
  then show ?thesis
    using accumulator_only_added_to [of "point_task (float_store \<lparr>lo = 0, hi = 1\<rparr> example_array)"
       "float_store \<lparr>lo = 0, hi = 1\<rparr> example_array" "[]" accumulator "[]" "\<lambda>p. float_of_int 5"]
    by (simp add: point_task_def)
qed

text \<open>
  Claim C10, as stated, for all bounds with \<open>lo \<le> hi\<close>: it fails over \<open>[-2, -1]\<close>,
  where the bound \<open>-1\<close> never stops the loop: the third element read is at coordinate 0,
  outside the slice.
\<close>

theorem reads_leave_slice_counterexample:
  "sint (- 2 :: coord_t) \<le> sint (- 1 :: coord_t)
   \<and> snd (snd (sum_loop_upto (Suc (Suc (Suc 0))) (\<lambda>p. float_of_int 1) (- 1) (- 2)
                (float_of_int 0) [])) = [- 2, - 1, 0]
   \<and> \<not> (sint (- 2 :: coord_t) \<le> sint (0 :: coord_t) \<and> sint (0 :: coord_t) \<le> sint (- 1 :: coord_t))"
  by simp

text \<open>
  Claim C10, amended: for bounds with \<open>0 \<le> lo \<le> hi\<close> the invocation ends, every
  coordinate it reads, at its end and at every moment before, lies between \<open>lo\<close> and
  \<open>hi\<close>, and its events are the same whatever other stores the context holds besides
  input store 0 and reduction store 0.
\<close>

theorem reads_stay_in_slice:
  assumes "inputs context = input # more_inputs"
    and "reductions context = output # more_reductions"
    and "0 \<le> sint (lo (shape input))"
    and "sint (lo (shape input)) \<le> sint (hi (shape input))"
  shows "\<exists>events result. cpu_variant context = Some (events, result)
      \<and> (\<forall>p. Read p \<in> set events
             \<longrightarrow> sint (lo (shape input)) \<le> sint p \<and> sint p \<le> sint (hi (shape input)))
      \<and> (\<forall>n p. p \<in> set (snd (snd (sum_loop_upto n (contents input) (hi (shape input))
                                       (lo (shape input)) (float_of_int 0) [])))
             \<longrightarrow> sint (lo (shape input)) \<le> sint p \<and> sint p \<le> sint (hi (shape input)))
      \<and> (\<forall>more_inputs' outputs' more_reductions'.
            map_option fst (cpu_variant \<lparr>inputs = input # more_inputs', outputs = outputs',
                                         reductions = output # more_reductions'\<rparr>)
              = Some events)"
proof -
  let ?l = "lo (shape input)" and ?h = "hi (shape input)"
  let ?reads = "map word_of_int [sint ?l..sint ?h] :: coord_t list"
  let ?tot = "foldl fadd (float_of_int 0) (map (\<lambda>k. contents input (word_of_int k)) [sint ?l..sint ?h])"
  have loop: "sum_loop (contents input) ?h ?l (float_of_int 0) [] = Some (?tot, ?reads)"
    using assms(3,4) sum_loop_nonneg [OF refl, of ?l ?h] by simp
  have range: "sint ?l \<le> sint p \<and> sint p \<le> sint ?h" if "p \<in> set ?reads" for p
  proof -
    from that obtain k where k: "p = word_of_int k" "sint ?l \<le> k" "k \<le> sint ?h"
      by (auto simp add: image_iff)
    then have "sint p = k" using sint_word_of_int_between by blast
    then show ?thesis using k by simp
  qed
  have upto: "sint ?l \<le> sint p \<and> sint p \<le> sint ?h"
    if "p \<in> set (snd (snd (sum_loop_upto n (contents input) ?h ?l (float_of_int 0) [])))" for n p
  proof -
    have "p \<in> set ?reads" using that sum_loop_upto_reads [OF loop, of n] by (rule subsetD [rotated])
    then show ?thesis by (rule range)
  qed
  let ?events = "\<lambda>ok. Log ?l ?h # map Read ?reads @ (if ok then [Reduce 0 ?tot] else [])"
  let ?ok = "code output = FLOAT_LT \<and> dim output = 1 \<and> shape output = \<lparr>lo = 0, hi = 0\<rparr>"
  have ev: "map_option fst (cpu_variant c) = Some (?events ?ok)"
    if "inputs c = input # mi" and "reductions c = output # mr" for c mi mr
    using cpu_variant_unfold [OF that loop] by simp
  obtain result where res: "cpu_variant context = Some (?events ?ok, result)"
    using ev [OF assms(1,2)] by (cases "cpu_variant context") auto
  have r1: "\<forall>p. Read p \<in> set (?events ?ok)
             \<longrightarrow> sint ?l \<le> sint p \<and> sint p \<le> sint ?h"
  proof (intro allI impI)
    fix p
    assume "Read p \<in> set (?events ?ok)"
    then have "p \<in> set ?reads" by (cases ?ok) auto
    then show "sint ?l \<le> sint p \<and> sint p \<le> sint ?h" by (rule range)
  qed
  have r2: "\<forall>n p. p \<in> set (snd (snd (sum_loop_upto n (contents input) ?h ?l (float_of_int 0) [])))
             \<longrightarrow> sint ?l \<le> sint p \<and> sint p \<le> sint ?h"
    by (intro allI impI) (erule upto)
  have r3: "\<forall>more_inputs' outputs' more_reductions'.
            map_option fst (cpu_variant \<lparr>inputs = input # more_inputs', outputs = outputs',
                                         reductions = output # more_reductions'\<rparr>)
              = Some (?events ?ok)"
    by (intro allI ev) simp_all
  show ?thesis
    by (rule exI [of _ "?events ?ok"], rule exI [of _ result], intro conjI)
       (rule res, rule r1, rule r2, rule r3)
qed

theorem reads_stay_in_slice_witness:
  "map_option fst (cpu_variant
       \<lparr>inputs = [float_store \<lparr>lo = 2, hi = 3\<rparr> example_array,
                  float_store \<lparr>lo = 0, hi = 1\<rparr> example_array],
        outputs = [accumulator], reductions = [accumulator, accumulator]\<rparr>)
     = Some [Log 2 3, Read 2, Read 3, Reduce 0 (float_of_int 7)]"
proof -
  let ?input = "float_store \<lparr>lo = 2, hi = 3\<rparr> example_array"
  have known: "cpu_variant (point_task ?input) =
    Some ([Log 2 3, Read 2, Read 3, Reduce 0 (float_of_int 7)],
        Inr ((point_task ?input)\<lparr>reductions := [reduce accumulator 0 (float_of_int 7)]\<rparr>))"
    by (simp add: cpu_variant_def point_task_def float_store_def accumulator_def
        example_second_half)
  have "inputs (point_task ?input) = ?input # []"
    and "reductions (point_task ?input) = accumulator # []"
    and "0 \<le> sint (lo (shape ?input))"
    and "sint (lo (shape ?input)) \<le> sint (hi (shape ?input))"
    by (simp_all add: point_task_def float_store_def)
  from reads_stay_in_slice [OF this] obtain events result where
    a: "cpu_variant (point_task ?input) = Some (events, result)" and
    b: "\<forall>more_inputs' outputs' more_reductions'.
            map_option fst (cpu_variant \<lparr>inputs = ?input # more_inputs', outputs = outputs',
                                         reductions = accumulator # more_reductions'\<rparr>)
              = Some events"
    by blast
  from a known have "events = [Log 2 3, Read 2, Read 3, Reduce 0 (float_of_int 7)]" by simp
  with b show ?thesis by simp
qed

end
